theory Spec2Isabelle
  imports Main "HOL-Library.Word"
begin

unbundle bit_operations_syntax

section \<open>Bytes, digits and results\<close>

text \<open>
  The library works on three kinds of data: bytes (\<open>unsigned char\<close>), digits of a
  numeral string (\<open>unsigned int\<close>) and the context \<open>struct fpe_ctx_st\<close>.
  Bytes are \<open>8 word\<close>. Digits and all loop-local arithmetic are \<open>nat\<close>: the
  C code computes every product and sum in \<open>unsigned long long\<close> from operands that
  fit 32 bits (a byte times a radix plus a carry, a remainder shifted by eight bits
  plus a byte, two digits plus a carry), so those intermediate values never wrap; the
  one place where an \<open>unsigned int\<close> sum is formed from a value the library does not
  bound, \<open>ceildiv\<close>, has its wrap-around written out.

  A call either returns 0 and has written its output (\<open>Inr\<close>), or returns \<open>-1\<close>
  (\<open>Inl Failure\<close>), or leaves defined behaviour: a write past the end of one of
  the fixed-size local arrays (\<open>Inl OutOfBounds\<close>) or a division by a zero radix
  (\<open>Inl DivideByZero\<close>).
\<close>

type_synonym byte = "8 word"

datatype error = Failure | OutOfBounds | DivideByZero

definition and_then :: "error + 'a \<Rightarrow> ('a \<Rightarrow> error + 'b) \<Rightarrow> error + 'b" where
  "and_then r f = (case r of Inl e \<Rightarrow> Inl e | Inr x \<Rightarrow> f x)"

text \<open>The cast \<open>(unsigned char)\<close>: the low eight bits.\<close>

definition uchar :: "nat \<Rightarrow> byte" where
  "uchar n = of_nat n"

text \<open>
  \<open>memcpy(dest, src, n)\<close> on the first \<open>n\<close> cells of an array, and a write of
  \<open>src\<close> at the current end \<open>buf\<close> of an array that holds \<open>cap\<close> cells
  (\<open>memcpy(Q + Q_len, src, n)\<close>, \<open>memset(Q + Q_len, 0, n)\<close>, \<open>Q[Q_len++] = c\<close>).
\<close>

definition memcpy :: "'a list \<Rightarrow> 'a list \<Rightarrow> nat \<Rightarrow> 'a list" where
  "memcpy dest src n = take n src @ drop n dest"

definition buf_write :: "nat \<Rightarrow> byte list \<Rightarrow> byte list \<Rightarrow> error + byte list" where
  "buf_write cap buf src =
     (if length buf + length src \<le> cap then Inr (buf @ src) else Inl OutOfBounds)"

section \<open>utils.c\<close>

abbreviation (input) FPE_ALGO_AES :: int where "FPE_ALGO_AES \<equiv> 0"
abbreviation (input) FPE_ALGO_SM4 :: int where "FPE_ALGO_SM4 \<equiv> 1"
abbreviation (input) FPE_MODE_FF1 :: int where "FPE_MODE_FF1 \<equiv> 0"
abbreviation (input) FPE_MODE_FF3 :: int where "FPE_MODE_FF3 \<equiv> 1"
abbreviation (input) FPE_MODE_FF3_1 :: int where "FPE_MODE_FF3_1 \<equiv> 2"

definition fpe_validate_radix :: "nat \<Rightarrow> int" where
  "fpe_validate_radix radix = (if radix < 2 \<or> 65536 < radix then - 1 else 0)"

definition fpe_validate_tweak :: "int \<Rightarrow> nat \<Rightarrow> int" where
  "fpe_validate_tweak mode tweak_len =
     (if mode = FPE_MODE_FF1 then 0
      else if mode = FPE_MODE_FF3 then
        (if tweak_len \<noteq> 8 \<and> tweak_len \<noteq> 7 \<and> tweak_len \<noteq> 0 then - 1 else 0)
      else if mode = FPE_MODE_FF3_1 then
        (if tweak_len \<noteq> 7 \<and> tweak_len \<noteq> 8 \<and> tweak_len \<noteq> 0 then - 1 else 0)
      else - 1)"

definition fpe_secure_zero :: "byte list \<Rightarrow> byte list" where
  "fpe_secure_zero p = replicate (length p) 0"

definition fpe_reverse_bytes :: "byte list \<Rightarrow> byte list" where
  "fpe_reverse_bytes bytes =
     (let len = length bytes
      in foldl (\<lambda>bs i. (let tmp = bs ! i in bs[i := bs ! (len - i - 1), len - i - 1 := tmp]))
           bytes [0..<len div 2])"

definition fpe_reverse_key :: "byte list \<Rightarrow> nat \<Rightarrow> byte list" where
  "fpe_reverse_key key len = map (\<lambda>i. key ! (len - 1 - i)) [0..<len]"

section \<open>The numeral codec (ff1.c, ff3.c, ff3-1.c)\<close>

text \<open>
  \<open>ceildiv\<close> on \<open>unsigned int\<close>; every call has \<open>b\<close> one of 4, 8 and 16.
\<close>

definition ceildiv :: "nat \<Rightarrow> nat \<Rightarrow> nat" where
  "ceildiv a b = ((a + b - 1) mod 2 ^ 32) div b"

text \<open>
  The inner loop of \<open>num_to_bytes\<close>, \<open>j\<close> from \<open>out_len - 1\<close> down to 0: the
  bytes are visited last byte first, so the pass is written on the reversed array.
  \<open>tmp & 0xFF\<close> is the cast to a byte and \<open>tmp >> 8\<close> is \<open>tmp div 256\<close>.
\<close>

fun mul_add_pass :: "nat \<Rightarrow> nat \<Rightarrow> byte list \<Rightarrow> byte list" where
  "mul_add_pass radix carry [] = []"
| "mul_add_pass radix carry (b # bs) =
     (let tmp = unat b * radix + carry
      in uchar tmp # mul_add_pass radix (tmp div 256) bs)"

definition horner_step :: "nat \<Rightarrow> byte list \<Rightarrow> nat \<Rightarrow> byte list" where
  "horner_step radix out digit = rev (mul_add_pass radix digit (rev out))"

text \<open>
  \<open>num_to_bytes\<close> takes the digits \<open>x[0] .. x[len - 1]\<close> in order,
  \<open>num_to_bytes_rev\<close> from \<open>x[len - 1]\<close> down to \<open>x[0]\<close>; both start from
  \<open>out_len\<close> zero bytes. The array \<open>x\<close> is the list of its \<open>len\<close> digits.
\<close>

definition num_to_bytes :: "nat list \<Rightarrow> nat \<Rightarrow> nat \<Rightarrow> byte list" where
  "num_to_bytes x radix out_len = foldl (horner_step radix) (replicate out_len 0) x"

definition num_to_bytes_rev :: "nat list \<Rightarrow> nat \<Rightarrow> nat \<Rightarrow> byte list" where
  "num_to_bytes_rev x radix out_len =
     foldl (horner_step radix) (replicate out_len 0) (rev x)"

text \<open>
  The inner loop of \<open>bytes_to_num\<close>, \<open>j\<close> from 0 up: one long division of
  \<open>temp\<close> by the radix, which returns the quotient bytes and the remainder.
  \<open>(remainder << 8) | temp[j]\<close> is \<open>remainder * 256 + temp[j]\<close>, the low eight
  bits of the shifted remainder being zero.
\<close>

fun div_pass :: "nat \<Rightarrow> nat \<Rightarrow> byte list \<Rightarrow> byte list \<times> nat" where
  "div_pass radix remainder [] = ([], remainder)"
| "div_pass radix remainder (t # ts) =
     (let tmp = remainder * 256 + unat t;
          (q, r) = div_pass radix (tmp mod radix) ts
      in (uchar (tmp div radix) # q, r))"

text \<open>The outer loop: \<open>n\<close> divisions, the remainders in the order they are produced.\<close>

fun digits_loop :: "nat \<Rightarrow> nat \<Rightarrow> byte list \<Rightarrow> nat list" where
  "digits_loop 0 radix temp = []"
| "digits_loop (Suc n) radix temp =
     (let (q, r) = div_pass radix 0 temp in r # digits_loop n radix q)"

text \<open>
  \<open>bytes_to_num\<close> stores the remainders from \<open>x[len - 1]\<close> down to \<open>x[0]\<close>,
  \<open>bytes_to_num_rev\<close> from \<open>x[0]\<close> up. Both copy the \<open>byte_len\<close> input bytes
  into the local \<open>unsigned char temp[256]\<close> first; \<open>bytes\<close> is the list of the
  \<open>byte_len\<close> bytes read.
\<close>

definition bytes_to_num :: "byte list \<Rightarrow> nat \<Rightarrow> nat \<Rightarrow> error + nat list" where
  "bytes_to_num bytes len radix =
     (if 256 < length bytes then Inl OutOfBounds
      else if radix = 0 \<and> 0 < len \<and> bytes \<noteq> [] then Inl DivideByZero
      else Inr (rev (digits_loop len radix bytes)))"

definition bytes_to_num_rev :: "byte list \<Rightarrow> nat \<Rightarrow> nat \<Rightarrow> error + nat list" where
  "bytes_to_num_rev bytes len radix =
     (if 256 < length bytes then Inl OutOfBounds
      else if radix = 0 \<and> 0 < len \<and> bytes \<noteq> [] then Inl DivideByZero
      else Inr (digits_loop len radix bytes))"

text \<open>
  The digit-wise addition and subtraction loops of the engines, written on the digits
  in the order the loop visits them (least significant first). The engines' arrays hold
  exactly the digits the loop visits. In \<open>sub_digits\<close> the C variable \<open>diff\<close> is
  a \<open>long long\<close>.
\<close>

fun add_digits :: "nat \<Rightarrow> nat \<Rightarrow> nat list \<Rightarrow> nat list \<Rightarrow> nat list" where
  "add_digits radix carry (a # as) (y # ys) =
     (let sum = a + y + carry
      in (sum mod radix) # add_digits radix (sum div radix) as ys)"
| "add_digits radix carry as ys = []"

fun sub_digits :: "nat \<Rightarrow> nat \<Rightarrow> nat list \<Rightarrow> nat list \<Rightarrow> nat list" where
  "sub_digits radix borrow (a # as) (y # ys) =
     (let diff = int a - int y - int borrow
      in if diff < 0 then nat (diff + int radix) # sub_digits radix 1 as ys
         else nat diff # sub_digits radix 0 as ys)"
| "sub_digits radix borrow as ys = []"

section \<open>The context (fpe_internal.h) and the block cipher\<close>

text \<open>
  OpenSSL is outside the repository. A keyed cipher context is a function from one
  16-byte block to the block \<open>EVP_EncryptUpdate\<close> writes, or \<open>None\<close> where the
  call returns 0. With ECB and padding disabled the call writes exactly one block for
  one block of input, so the result is cut or zero-filled to 16 bytes.
\<close>

type_synonym block_cipher = "byte list \<Rightarrow> byte list option"

definition EVP_EncryptUpdate :: "block_cipher \<Rightarrow> byte list \<Rightarrow> byte list option" where
  "EVP_EncryptUpdate E block =
     (case E block of None \<Rightarrow> None | Some out \<Rightarrow> Some (take 16 (out @ replicate 16 0)))"

text \<open>
  \<open>params\<close> is a union of three structs. Each starts with the \<open>unsigned int\<close>
  \<open>minlen\<close>; behind it \<open>ff3\<close> and \<open>ff3_1\<close> have the 32 bytes of
  \<open>reversed_key\<close> and \<open>ff1\<close> has the \<open>unsigned int\<close> \<open>maxlen\<close>, which
  occupies the four bytes that are \<open>reversed_key[0..3]\<close> in the other two members
  (an \<open>unsigned int\<close> of four bytes; a byte array needs no padding before it). The
  record keeps \<open>minlen\<close> and the 32 bytes behind it, \<open>params_reversed_key\<close>; a
  store to \<open>ff1.maxlen\<close> is a store to the first four of them. No function reads
  \<open>maxlen\<close>.
\<close>

record FPE_CTX =
  ctx_mode :: int
  ctx_algo :: int
  ctx_radix :: nat
  ctx_key_bits :: nat
  ctx_key :: "byte list"
  ctx_key_len :: nat
  cipher_ctx :: "block_cipher option"
  params_minlen :: nat
  params_reversed_key :: "byte list"

section \<open>FF1 (ff1.c)\<close>

text \<open>
  The fixed block \<open>P\<close>, built the same way by \<open>ff1_encrypt\<close> (lines 177-194) and
  \<open>ff1_decrypt\<close> (lines 375-392).
\<close>

definition ff1_P :: "nat \<Rightarrow> nat \<Rightarrow> nat \<Rightarrow> nat \<Rightarrow> byte list" where
  "ff1_P radix u len tweak_len =
     [1, 2, 1,
      uchar (drop_bit 16 radix AND 255), uchar (drop_bit 8 radix AND 255), uchar (radix AND 255),
      10, uchar (u AND 255),
      uchar (drop_bit 24 len AND 255), uchar (drop_bit 16 len AND 255),
      uchar (drop_bit 8 len AND 255), uchar (len AND 255),
      uchar (drop_bit 24 tweak_len AND 255), uchar (drop_bit 16 tweak_len AND 255),
      uchar (drop_bit 8 tweak_len AND 255), uchar (tweak_len AND 255)]"

text \<open>
  C's \<open>%\<close> truncates towards zero; \<open>pad_amount\<close> is an \<open>int\<close>.
\<close>

definition c_rem :: "int \<Rightarrow> int \<Rightarrow> int" where
  "c_rem a b = sgn a * (\<bar>a\<bar> mod \<bar>b\<bar>)"

definition ff1_padding_len :: "nat \<Rightarrow> nat \<Rightarrow> nat" where
  "ff1_padding_len tweak_len b =
     (let pad_amount = - int tweak_len - int b - 1
      in nat ((c_rem pad_amount 16 + 16) mod 16))"

text \<open>
  The assembly of \<open>Q\<close> in the local \<open>unsigned char Q[256]\<close> (lines 220-245 and
  405-427), one write after the other; \<open>B_bytes\<close> is a local array of 256 bytes too.
\<close>

definition ff1_Q :: "byte list \<Rightarrow> nat \<Rightarrow> nat \<Rightarrow> nat list \<Rightarrow> nat \<Rightarrow> error + byte list" where
  "ff1_Q tweak b i pB radix =
     and_then (if 0 < length tweak then buf_write 256 [] tweak else Inr []) (\<lambda>Q1.
     and_then (buf_write 256 Q1 (replicate (ff1_padding_len (length tweak) b) 0)) (\<lambda>Q2.
     and_then (buf_write 256 Q2 [uchar i]) (\<lambda>Q3.
     and_then (buf_write 256 Q3 (replicate b 0)) (\<lambda>Q4.
     and_then (buf_write 256 [] (num_to_bytes pB radix b)) (\<lambda>B_bytes.
     buf_write 256 Q3 B_bytes)))))"

text \<open>\<open>ff1_prf\<close>, step 2: the CBC-MAC over the 16-byte blocks of \<open>Q\<close>.\<close>

fun ff1_cbc_mac :: "block_cipher \<Rightarrow> byte list \<Rightarrow> byte list list \<Rightarrow> error + byte list" where
  "ff1_cbc_mac E R [] = Inr R"
| "ff1_cbc_mac E R (Qi # Qs) =
     (case EVP_EncryptUpdate E (map2 (XOR) Qi R) of
        None \<Rightarrow> Inl Failure
      | Some R' \<Rightarrow> ff1_cbc_mac E R' Qs)"

text \<open>
  \<open>ff1_prf\<close>, step 3 for \<open>S_len > 16\<close>: the loop over \<open>j = 1 .. num_extra_blocks\<close>,
  with \<open>n\<close> iterations left. \<open>S\<close> is the part of the caller's array written so far
  (\<open>16 * j\<close> bytes) and \<open>S_size\<close> the size of that array.
\<close>

fun ff1_prf_extend ::
  "block_cipher \<Rightarrow> byte list \<Rightarrow> nat \<Rightarrow> nat \<Rightarrow> nat \<Rightarrow> nat \<Rightarrow> nat \<Rightarrow> byte list \<Rightarrow> error + byte list"
where
  "ff1_prf_extend E R S_len num_extra_blocks S_size 0 j S = Inr S"
| "ff1_prf_extend E R S_len num_extra_blocks S_size (Suc n) j S =
     (let tmp = map2 (XOR)
                  (replicate 12 0 @
                   [uchar (drop_bit 24 j AND 255), uchar (drop_bit 16 j AND 255),
                    uchar (drop_bit 8 j AND 255), uchar (j AND 255)]) R
      in case EVP_EncryptUpdate E tmp of
           None \<Rightarrow> Inl Failure
         | Some SS \<Rightarrow>
             (let copy_len = (if j = num_extra_blocks then S_len - j * 16 else 16)
              in and_then (buf_write S_size S (take copy_len SS))
                   (ff1_prf_extend E R S_len num_extra_blocks S_size n (j + 1))))"

definition ff1_prf :: "FPE_CTX \<Rightarrow> byte list \<Rightarrow> byte list \<Rightarrow> nat \<Rightarrow> nat \<Rightarrow> error + byte list" where
  "ff1_prf ctx P Q S_len S_size =
     (case cipher_ctx ctx of
        None \<Rightarrow> Inl Failure
      | Some E \<Rightarrow>
          if length P \<noteq> 16 then Inl Failure
          else (case EVP_EncryptUpdate E P of
                  None \<Rightarrow> Inl Failure
                | Some R0 \<Rightarrow>
                    and_then
                      (ff1_cbc_mac E R0
                         (map (\<lambda>i. take 16 (drop (i * 16) Q)) [0..<length Q div 16]))
                      (\<lambda>R. if S_len \<le> 16 then buf_write S_size [] (take S_len R)
                           else and_then (buf_write S_size [] R)
                                  (ff1_prf_extend E R S_len (ceildiv S_len 16 - 1) S_size
                                     (ceildiv S_len 16 - 1) 1))))"

text \<open>
  One round's \<open>y_num\<close> (lines 220-280 and 405-440): \<open>Q\<close>, the PRF into
  \<open>S[256]\<close>, the copy of \<open>d\<close> bytes into \<open>y_bytes[256]\<close>, and the conversion to
  \<open>m\<close> digits.
\<close>

definition ff1_round_y ::
  "FPE_CTX \<Rightarrow> byte list \<Rightarrow> byte list \<Rightarrow> nat \<Rightarrow> nat \<Rightarrow> nat \<Rightarrow> nat list \<Rightarrow> nat \<Rightarrow> error + nat list"
where
  "ff1_round_y ctx P tweak b d i pB m =
     and_then (ff1_Q tweak b i pB (ctx_radix ctx)) (\<lambda>Q.
     and_then (ff1_prf ctx P Q d 256) (\<lambda>S.
     and_then (buf_write 256 [] (take d S)) (\<lambda>y_bytes.
     bytes_to_num y_bytes m (ctx_radix ctx))))"

text \<open>
  The round loops. \<open>pA\<close> and \<open>pB\<close> are the arrays the two pointers address,
  holding \<open>m\<close> and \<open>len - m\<close> digits; the pointer swap exchanges them. In FF1 the
  digit loop runs from index \<open>m - 1\<close> down, so the arrays are reversed around
  \<open>add_digits\<close> and \<open>sub_digits\<close>. The first argument after \<open>v\<close> counts the
  rounds left (encryption, round index \<open>i\<close> going up) or is one more than the round
  index (decryption, going down).
\<close>

fun ff1_encrypt_rounds ::
  "FPE_CTX \<Rightarrow> byte list \<Rightarrow> byte list \<Rightarrow> nat \<Rightarrow> nat \<Rightarrow> nat \<Rightarrow> nat \<Rightarrow> nat \<Rightarrow> nat \<Rightarrow>
   nat list \<Rightarrow> nat list \<Rightarrow> error + nat list \<times> nat list"
where
  "ff1_encrypt_rounds ctx P tweak b d u v 0 i pA pB = Inr (pA, pB)"
| "ff1_encrypt_rounds ctx P tweak b d u v (Suc n) i pA pB =
     (let m = (if odd i then v else u)
      in and_then (ff1_round_y ctx P tweak b d i pB m) (\<lambda>y_num.
           ff1_encrypt_rounds ctx P tweak b d u v n (i + 1) pB
             (rev (add_digits (ctx_radix ctx) 0 (rev pA) (rev y_num)))))"

fun ff1_decrypt_rounds ::
  "FPE_CTX \<Rightarrow> byte list \<Rightarrow> byte list \<Rightarrow> nat \<Rightarrow> nat \<Rightarrow> nat \<Rightarrow> nat \<Rightarrow> nat \<Rightarrow>
   nat list \<Rightarrow> nat list \<Rightarrow> error + nat list \<times> nat list"
where
  "ff1_decrypt_rounds ctx P tweak b d u v 0 pA pB = Inr (pA, pB)"
| "ff1_decrypt_rounds ctx P tweak b d u v (Suc i) pA pB =
     (let m = (if odd i then v else u)
      in and_then (ff1_round_y ctx P tweak b d i pA m) (\<lambda>y_num.
           ff1_decrypt_rounds ctx P tweak b d u v i
             (rev (sub_digits (ctx_radix ctx) 0 (rev pB) (rev y_num))) pA))"

text \<open>
  The parameter \<open>clog2\<close> stands for the floating-point expression
  \<open>(unsigned int)ceil(n * log2((double)radix))\<close> of the C code:
  \<open>clog2 n radix\<close> is its value.
\<close>

definition ff1_encrypt ::
  "(nat \<Rightarrow> nat \<Rightarrow> nat) \<Rightarrow> FPE_CTX \<Rightarrow> nat list \<Rightarrow> byte list \<Rightarrow> error + nat list"
where
  "ff1_encrypt clog2 ctx inp tweak =
     (let len = length inp; tweak_len = length tweak
      in if len < 2 then Inl Failure
         else let radix = ctx_radix ctx; u = len div 2; v = len - u
              in if 256 < len then Inl Failure
                 else let A = take u inp; B = drop u inp;
                          b = ceildiv (clog2 v radix) 8;
                          d = 4 * ceildiv b 4 + 4;
                          P = ff1_P radix u len tweak_len
                      in and_then (ff1_encrypt_rounds ctx P tweak b d u v 10 0 A B)
                           (\<lambda>(pA, pB). Inr (take u pA @ take v pB)))"

definition ff1_decrypt ::
  "(nat \<Rightarrow> nat \<Rightarrow> nat) \<Rightarrow> FPE_CTX \<Rightarrow> nat list \<Rightarrow> byte list \<Rightarrow> error + nat list"
where
  "ff1_decrypt clog2 ctx inp tweak =
     (let len = length inp; tweak_len = length tweak
      in if len < 2 then Inl Failure
         else let radix = ctx_radix ctx; u = len div 2; v = len - u
              in if 256 < len then Inl Failure
                 else let A = take u inp; B = drop u inp;
                          b = ceildiv (clog2 v radix) 8;
                          d = 4 * ceildiv b 4 + 4;
                          P = ff1_P radix u len tweak_len
                      in and_then (ff1_decrypt_rounds ctx P tweak b d u v 10 A B)
                           (\<lambda>(pA, pB). Inr (take u pA @ take v pB)))"

section \<open>FF3 (ff3.c) and FF3-1 (ff3-1.c)\<close>

text \<open>
  The two files differ in the names, in the comments and in how the tweak is split
  into \<open>Tl\<close> and \<open>Tr\<close>; the codec helpers, the round function and the round loops
  are the same text. \<open>ff3_round_encrypt\<close> is lines 114-153 of ff3.c and
  \<open>ff3_1_round_encrypt\<close> lines 113-157 of ff3-1.c; \<open>T\<close> is one of the four-byte
  arrays \<open>Tl\<close> and \<open>Tr\<close>, \<open>B\<close> the list of the \<open>B_len\<close> digits read.
\<close>

definition ff3_round_encrypt ::
  "(nat \<Rightarrow> nat \<Rightarrow> nat) \<Rightarrow> FPE_CTX \<Rightarrow> byte list \<Rightarrow> nat \<Rightarrow> nat list \<Rightarrow> nat \<Rightarrow> nat \<Rightarrow> error + byte list"
where
  "ff3_round_encrypt clog2 ctx T round B radix W_len =
     (case cipher_ctx ctx of
        None \<Rightarrow> Inl Failure
      | Some E \<Rightarrow>
          (let plaintext0 = memcpy (replicate 16 0) T 4;
               plaintext1 = plaintext0[3 := (plaintext0 ! 3) XOR uchar round];
               b0 = ceildiv (clog2 (length B) radix) 8;
               b = (if 12 < b0 then 12 else b0);
               plaintext2 = take (16 - b) plaintext1 @ num_to_bytes_rev B radix b;
               plaintext3 = fpe_reverse_bytes plaintext2
           in case EVP_EncryptUpdate E plaintext3 of
                None \<Rightarrow> Inl Failure
              | Some ciphertext \<Rightarrow>
                  Inr (take (if W_len < 16 then W_len else 16) (fpe_reverse_bytes ciphertext))))"

definition ff3_1_round_encrypt ::
  "(nat \<Rightarrow> nat \<Rightarrow> nat) \<Rightarrow> FPE_CTX \<Rightarrow> byte list \<Rightarrow> nat \<Rightarrow> nat list \<Rightarrow> nat \<Rightarrow> nat \<Rightarrow> error + byte list"
where
  "ff3_1_round_encrypt = ff3_round_encrypt"

text \<open>
  The round loops of \<open>ff3_encrypt\<close>/\<open>ff3_1_encrypt\<close> and of
  \<open>ff3_decrypt\<close>/\<open>ff3_1_decrypt\<close>. The digit loops run from index 0 up. The
  local \<open>b\<close> the loops compute is never used and is left out.
\<close>

fun ff3_encrypt_rounds ::
  "(nat \<Rightarrow> nat \<Rightarrow> nat) \<Rightarrow> FPE_CTX \<Rightarrow> byte list \<Rightarrow> byte list \<Rightarrow> nat \<Rightarrow> nat \<Rightarrow> nat \<Rightarrow> nat \<Rightarrow>
   nat list \<Rightarrow> nat list \<Rightarrow> error + nat list \<times> nat list"
where
  "ff3_encrypt_rounds clog2 ctx Tl Tr u v 0 i pA pB = Inr (pA, pB)"
| "ff3_encrypt_rounds clog2 ctx Tl Tr u v (Suc n) i pA pB =
     (let T = (if odd i then Tl else Tr);
          m = (if odd i then v else u)
      in and_then (ff3_round_encrypt clog2 ctx T i pB (ctx_radix ctx) 16) (\<lambda>W.
         and_then (bytes_to_num_rev W m (ctx_radix ctx)) (\<lambda>y.
           ff3_encrypt_rounds clog2 ctx Tl Tr u v n (i + 1) pB
             (add_digits (ctx_radix ctx) 0 pA y))))"

fun ff3_decrypt_rounds ::
  "(nat \<Rightarrow> nat \<Rightarrow> nat) \<Rightarrow> FPE_CTX \<Rightarrow> byte list \<Rightarrow> byte list \<Rightarrow> nat \<Rightarrow> nat \<Rightarrow> nat \<Rightarrow>
   nat list \<Rightarrow> nat list \<Rightarrow> error + nat list \<times> nat list"
where
  "ff3_decrypt_rounds clog2 ctx Tl Tr u v 0 pA pB = Inr (pA, pB)"
| "ff3_decrypt_rounds clog2 ctx Tl Tr u v (Suc i) pA pB =
     (let T = (if odd i then Tl else Tr);
          m = (if odd i then v else u)
      in and_then (ff3_round_encrypt clog2 ctx T i pA (ctx_radix ctx) 16) (\<lambda>W.
         and_then (bytes_to_num_rev W m (ctx_radix ctx)) (\<lambda>y.
           ff3_decrypt_rounds clog2 ctx Tl Tr u v i
             (sub_digits (ctx_radix ctx) 0 pB y) pA)))"

text \<open>The tweak halves of FF3 (ff3.c, lines 182-192 and 269-279).\<close>

definition ff3_tweak_halves :: "byte list \<Rightarrow> byte list \<times> byte list" where
  "ff3_tweak_halves tweak =
     (let tweak_len = length tweak;
          Tl = (if 4 \<le> tweak_len then memcpy (replicate 4 0) tweak 4 else replicate 4 0);
          Tr = (if 8 \<le> tweak_len then memcpy (replicate 4 0) (drop 4 tweak) 4
                else if tweak_len = 7 then memcpy (replicate 4 0) (drop 4 tweak) 3
                else replicate 4 0)
      in (Tl, Tr))"

text \<open>The tweak halves of FF3-1 (ff3-1.c, lines 187-202 and 279-294).\<close>

definition ff3_1_tweak_halves :: "byte list \<Rightarrow> byte list \<times> byte list" where
  "ff3_1_tweak_halves tweak =
     (if 7 \<le> length tweak then
        ([tweak ! 0, tweak ! 1, tweak ! 2, (tweak ! 3) AND 0xF0],
         [(tweak ! 3) AND 0x0F, tweak ! 4, tweak ! 5, tweak ! 6])
      else (replicate 4 0, replicate 4 0))"

definition ff3_encrypt ::
  "(nat \<Rightarrow> nat \<Rightarrow> nat) \<Rightarrow> FPE_CTX \<Rightarrow> nat list \<Rightarrow> byte list \<Rightarrow> error + nat list"
where
  "ff3_encrypt clog2 ctx inp tweak =
     (let len = length inp; tweak_len = length tweak
      in if len < 2 \<or> 256 < len then Inl Failure
         else if tweak_len \<noteq> 8 \<and> tweak_len \<noteq> 7 \<and> tweak_len \<noteq> 0 then Inl Failure
         else let u = (len + 1) div 2; v = len - u;
                  A = take u inp; B = drop u inp;
                  (Tl, Tr) = ff3_tweak_halves tweak
              in and_then (ff3_encrypt_rounds clog2 ctx Tl Tr u v 8 0 A B)
                   (\<lambda>(pA, pB). Inr (take u pA @ take v pB)))"

definition ff3_decrypt ::
  "(nat \<Rightarrow> nat \<Rightarrow> nat) \<Rightarrow> FPE_CTX \<Rightarrow> nat list \<Rightarrow> byte list \<Rightarrow> error + nat list"
where
  "ff3_decrypt clog2 ctx inp tweak =
     (let len = length inp; tweak_len = length tweak
      in if len < 2 \<or> 256 < len then Inl Failure
         else if tweak_len \<noteq> 8 \<and> tweak_len \<noteq> 7 \<and> tweak_len \<noteq> 0 then Inl Failure
         else let u = (len + 1) div 2; v = len - u;
                  A = take u inp; B = drop u inp;
                  (Tl, Tr) = ff3_tweak_halves tweak
              in and_then (ff3_decrypt_rounds clog2 ctx Tl Tr u v 8 A B)
                   (\<lambda>(pA, pB). Inr (take u pA @ take v pB)))"

definition ff3_1_encrypt ::
  "(nat \<Rightarrow> nat \<Rightarrow> nat) \<Rightarrow> FPE_CTX \<Rightarrow> nat list \<Rightarrow> byte list \<Rightarrow> error + nat list"
where
  "ff3_1_encrypt clog2 ctx inp tweak =
     (let len = length inp; tweak_len = length tweak
      in if len < 2 \<or> 256 < len then Inl Failure
         else if tweak_len \<noteq> 7 \<and> tweak_len \<noteq> 8 \<and> tweak_len \<noteq> 0 then Inl Failure
         else let u = (len + 1) div 2; v = len - u;
                  A = take u inp; B = drop u inp;
                  (Tl, Tr) = ff3_1_tweak_halves tweak
              in and_then (ff3_encrypt_rounds clog2 ctx Tl Tr u v 8 0 A B)
                   (\<lambda>(pA, pB). Inr (take u pA @ take v pB)))"

definition ff3_1_decrypt ::
  "(nat \<Rightarrow> nat \<Rightarrow> nat) \<Rightarrow> FPE_CTX \<Rightarrow> nat list \<Rightarrow> byte list \<Rightarrow> error + nat list"
where
  "ff3_1_decrypt clog2 ctx inp tweak =
     (let len = length inp; tweak_len = length tweak
      in if len < 2 \<or> 256 < len then Inl Failure
         else if tweak_len \<noteq> 7 \<and> tweak_len \<noteq> 8 \<and> tweak_len \<noteq> 0 then Inl Failure
         else let u = (len + 1) div 2; v = len - u;
                  A = take u inp; B = drop u inp;
                  (Tl, Tr) = ff3_1_tweak_halves tweak
              in and_then (ff3_decrypt_rounds clog2 ctx Tl Tr u v 8 A B)
                   (\<lambda>(pA, pB). Inr (take u pA @ take v pB)))"

section \<open>The public interface (fpe.c)\<close>

text \<open>
  \<open>FPE_CTX_new\<close>: the zeroed block \<open>calloc\<close> returns.
\<close>

definition FPE_CTX_new :: FPE_CTX where
  "FPE_CTX_new =
     \<lparr>ctx_mode = 0, ctx_algo = 0, ctx_radix = 0, ctx_key_bits = 0,
      ctx_key = replicate 32 0, ctx_key_len = 0, cipher_ctx = None,
      params_minlen = 0, params_reversed_key = replicate 32 0\<rparr>"

text \<open>
  What \<open>FPE_CTX_init\<close> gets from OpenSSL for an algorithm, a key length in bits and
  the key bytes it passes: \<open>EVP_CIPHER_CTX_new\<close> may return NULL, the library may
  have no cipher for the algorithm (SM4 without \<open>HAVE_OPENSSL_SM4\<close>),
  \<open>EVP_EncryptInit_ex\<close> may fail, or the context is keyed. A context that was
  allocated but never keyed fails every \<open>EVP_EncryptUpdate\<close>.
\<close>

datatype evp_outcome = CtxAllocFailed | NoCipher | InitFailed | Ready block_cipher

type_synonym evp = "int \<Rightarrow> nat \<Rightarrow> byte list \<Rightarrow> evp_outcome"

definition unkeyed :: block_cipher where
  "unkeyed = (\<lambda>block. None)"

text \<open>
  \<open>FPE_CTX_init\<close> returns its \<open>int\<close> and the context as it leaves it. The caller's
  \<open>key\<close> array is the list \<open>key\<close>, of which \<open>bits / 8\<close> bytes are read. In the
  FF1 branch \<open>ctx->params.ff1.maxlen = 0\<close> writes four zero bytes over
  \<open>reversed_key[0..3]\<close>.
\<close>

definition FPE_CTX_init ::
  "evp \<Rightarrow> FPE_CTX \<Rightarrow> int \<Rightarrow> int \<Rightarrow> byte list \<Rightarrow> nat \<Rightarrow> nat \<Rightarrow> int \<times> FPE_CTX"
where
  "FPE_CTX_init openssl ctx mode algo key bits radix =
     (if fpe_validate_radix radix \<noteq> 0 then (- 1, ctx)
      else if (if algo = FPE_ALGO_AES then bits \<noteq> 128 \<and> bits \<noteq> 192 \<and> bits \<noteq> 256
               else if algo = FPE_ALGO_SM4 then bits \<noteq> 128
               else True)
      then (- 1, ctx)
      else
        (let key_len = bits div 8;
             ctx1 = ctx\<lparr>ctx_mode := mode, ctx_algo := algo, ctx_radix := radix,
                       ctx_key_bits := bits, ctx_key_len := key_len,
                       ctx_key := memcpy (ctx_key ctx) key key_len\<rparr>
         in if mode = FPE_MODE_FF1 then
              (case openssl algo bits (take key_len key) of
                 CtxAllocFailed \<Rightarrow> (- 1, ctx1\<lparr>cipher_ctx := None\<rparr>)
               | NoCipher \<Rightarrow> (- 1, ctx1\<lparr>cipher_ctx := Some unkeyed\<rparr>)
               | InitFailed \<Rightarrow> (- 1, ctx1\<lparr>cipher_ctx := Some unkeyed\<rparr>)
               | Ready E \<Rightarrow>
                   (0, ctx1\<lparr>cipher_ctx := Some E, params_minlen := 2,
                            params_reversed_key :=
                              memcpy (params_reversed_key ctx) (replicate 4 0) 4\<rparr>))
            else if mode = FPE_MODE_FF3 \<or> mode = FPE_MODE_FF3_1 then
              (let reversed_key = fpe_reverse_key key key_len
               in case openssl algo bits reversed_key of
                    CtxAllocFailed \<Rightarrow> (- 1, ctx1\<lparr>cipher_ctx := None\<rparr>)
                  | NoCipher \<Rightarrow> (- 1, ctx1\<lparr>cipher_ctx := Some unkeyed\<rparr>)
                  | InitFailed \<Rightarrow> (- 1, ctx1\<lparr>cipher_ctx := Some unkeyed\<rparr>)
                  | Ready E \<Rightarrow>
                      (0, ctx1\<lparr>cipher_ctx := Some E,
                               params_reversed_key :=
                                 memcpy (params_reversed_key ctx) reversed_key key_len,
                               params_minlen := 2\<rparr>))
            else (0, ctx1)))"

text \<open>\<open>FPE_CTX_free\<close>: the context as it is wiped before its memory is released.\<close>

definition FPE_CTX_free :: "FPE_CTX \<Rightarrow> FPE_CTX" where
  "FPE_CTX_free ctx =
     ctx\<lparr>cipher_ctx := None, ctx_key := fpe_secure_zero (ctx_key ctx),
         params_minlen := 0,
         params_reversed_key := fpe_secure_zero (params_reversed_key ctx)\<rparr>"

definition FPE_encrypt ::
  "(nat \<Rightarrow> nat \<Rightarrow> nat) \<Rightarrow> FPE_CTX \<Rightarrow> nat list \<Rightarrow> byte list \<Rightarrow> error + nat list"
where
  "FPE_encrypt clog2 ctx inp tweak =
     (if fpe_validate_tweak (ctx_mode ctx) (length tweak) \<noteq> 0 then Inl Failure
      else if ctx_mode ctx = FPE_MODE_FF1 then ff1_encrypt clog2 ctx inp tweak
      else if ctx_mode ctx = FPE_MODE_FF3 then ff3_encrypt clog2 ctx inp tweak
      else if ctx_mode ctx = FPE_MODE_FF3_1 then ff3_1_encrypt clog2 ctx inp tweak
      else Inl Failure)"

definition FPE_decrypt ::
  "(nat \<Rightarrow> nat \<Rightarrow> nat) \<Rightarrow> FPE_CTX \<Rightarrow> nat list \<Rightarrow> byte list \<Rightarrow> error + nat list"
where
  "FPE_decrypt clog2 ctx inp tweak =
     (if fpe_validate_tweak (ctx_mode ctx) (length tweak) \<noteq> 0 then Inl Failure
      else if ctx_mode ctx = FPE_MODE_FF1 then ff1_decrypt clog2 ctx inp tweak
      else if ctx_mode ctx = FPE_MODE_FF3 then ff3_decrypt clog2 ctx inp tweak
      else if ctx_mode ctx = FPE_MODE_FF3_1 then ff3_1_decrypt clog2 ctx inp tweak
      else Inl Failure)"

section \<open>Notions of the specification\<close>

text \<open>
  The number a byte string denotes, most significant byte first (\<open>be_val\<close>) and least
  significant byte first (\<open>le_val\<close>); the number a numeral string denotes in the
  natural order of FF1 (\<open>num_val\<close>); the \<open>k\<close> low digits of a number, least
  significant first (\<open>le_digits\<close>); and the big-endian encoding of a number in
  \<open>k\<close> bytes (\<open>be_bytes\<close>).
\<close>

fun be_val :: "byte list \<Rightarrow> nat" where
  "be_val [] = 0"
| "be_val (b # bs) = unat b * 256 ^ length bs + be_val bs"

fun le_val :: "byte list \<Rightarrow> nat" where
  "le_val [] = 0"
| "le_val (b # bs) = unat b + 256 * le_val bs"

definition num_val :: "nat \<Rightarrow> nat list \<Rightarrow> nat" where
  "num_val radix x = foldl (\<lambda>a d. a * radix + d) 0 x"

fun le_digits :: "nat \<Rightarrow> nat \<Rightarrow> nat \<Rightarrow> nat list" where
  "le_digits 0 radix n = []"
| "le_digits (Suc k) radix n = (n mod radix) # le_digits k radix (n div radix)"

fun be_bytes :: "nat \<Rightarrow> nat \<Rightarrow> byte list" where
  "be_bytes 0 n = []"
| "be_bytes (Suc k) n = be_bytes k (n div 256) @ [uchar (n mod 256)]"

text \<open>
  The condition under which no write of \<open>ff1_encrypt\<close> or \<open>ff1_decrypt\<close> leaves
  its array: \<open>Q\<close> (tweak, padding, round byte, \<open>b\<close> bytes) fits 256 bytes and so
  do the \<open>d\<close> bytes of \<open>S\<close>.
\<close>

definition ff1_fits :: "(nat \<Rightarrow> nat \<Rightarrow> nat) \<Rightarrow> nat \<Rightarrow> nat \<Rightarrow> nat \<Rightarrow> bool" where
  "ff1_fits clog2 radix len tweak_len =
     (let v = len - len div 2;
          b = ceildiv (clog2 v radix) 8;
          d = 4 * ceildiv b 4 + 4
      in tweak_len + ff1_padding_len tweak_len b + 1 + b \<le> 256 \<and> d \<le> 256)"

section \<open>The round loops, abstractly\<close>

text \<open>
  The four round loops have one shape: a round function \<open>F\<close> that maps the round
  index and the array behind \<open>pB\<close> to the digits \<open>y\<close> (or fails), and a digit-wise
  operation that updates the array behind \<open>pA\<close>. \<open>len_at u v i\<close> is the \<open>m\<close> of
  round \<open>i\<close>. These definitions serve the proofs: each loop above is shown equal to
  an instance.
\<close>

definition len_at :: "nat \<Rightarrow> nat \<Rightarrow> nat \<Rightarrow> nat" where
  "len_at u v i = (if odd i then v else u)"

fun enc_loop ::
  "(nat \<Rightarrow> nat list \<Rightarrow> error + nat list) \<Rightarrow> (nat list \<Rightarrow> nat list \<Rightarrow> nat list) \<Rightarrow>
   nat \<Rightarrow> nat \<Rightarrow> nat list \<Rightarrow> nat list \<Rightarrow> error + nat list \<times> nat list"
where
  "enc_loop F addf 0 i pA pB = Inr (pA, pB)"
| "enc_loop F addf (Suc n) i pA pB =
     and_then (F i pB) (\<lambda>y. enc_loop F addf n (i + 1) pB (addf pA y))"

fun dec_loop ::
  "(nat \<Rightarrow> nat list \<Rightarrow> error + nat list) \<Rightarrow> (nat list \<Rightarrow> nat list \<Rightarrow> nat list) \<Rightarrow>
   nat \<Rightarrow> nat list \<Rightarrow> nat list \<Rightarrow> error + nat list \<times> nat list"
where
  "dec_loop F subf 0 pA pB = Inr (pA, pB)"
| "dec_loop F subf (Suc i) pA pB =
     and_then (F i pA) (\<lambda>y. dec_loop F subf i (subf pB y) pA)"

text \<open>
  What the six engine functions do after their argument checks: split the input at
  \<open>u\<close>, run the loop, and write the \<open>u\<close> digits behind \<open>pA\<close> followed by the
  \<open>v\<close> digits behind \<open>pB\<close>.
\<close>

definition feistel_encrypt ::
  "(nat \<Rightarrow> nat list \<Rightarrow> error + nat list) \<Rightarrow> (nat list \<Rightarrow> nat list \<Rightarrow> nat list) \<Rightarrow>
   nat \<Rightarrow> nat \<Rightarrow> nat \<Rightarrow> nat list \<Rightarrow> error + nat list"
where
  "feistel_encrypt F addf n u v inp =
     and_then (enc_loop F addf n 0 (take u inp) (drop u inp))
       (\<lambda>(pA, pB). Inr (take u pA @ take v pB))"

definition feistel_decrypt ::
  "(nat \<Rightarrow> nat list \<Rightarrow> error + nat list) \<Rightarrow> (nat list \<Rightarrow> nat list \<Rightarrow> nat list) \<Rightarrow>
   nat \<Rightarrow> nat \<Rightarrow> nat \<Rightarrow> nat list \<Rightarrow> error + nat list"
where
  "feistel_decrypt F subf n u v inp =
     and_then (dec_loop F subf n (take u inp) (drop u inp))
       (\<lambda>(pA, pB). Inr (take u pA @ take v pB))"

definition ff1_F ::
  "FPE_CTX \<Rightarrow> byte list \<Rightarrow> byte list \<Rightarrow> nat \<Rightarrow> nat \<Rightarrow> nat \<Rightarrow> nat \<Rightarrow> nat \<Rightarrow> nat list \<Rightarrow> error + nat list"
where
  "ff1_F ctx P tweak b d u v i pB = ff1_round_y ctx P tweak b d i pB (len_at u v i)"

definition ff1_add :: "nat \<Rightarrow> nat list \<Rightarrow> nat list \<Rightarrow> nat list" where
  "ff1_add radix a y = rev (add_digits radix 0 (rev a) (rev y))"

definition ff1_sub :: "nat \<Rightarrow> nat list \<Rightarrow> nat list \<Rightarrow> nat list" where
  "ff1_sub radix a y = rev (sub_digits radix 0 (rev a) (rev y))"

definition ff3_F ::
  "(nat \<Rightarrow> nat \<Rightarrow> nat) \<Rightarrow> FPE_CTX \<Rightarrow> byte list \<Rightarrow> byte list \<Rightarrow> nat \<Rightarrow> nat \<Rightarrow> nat \<Rightarrow> nat list \<Rightarrow>
   error + nat list"
where
  "ff3_F clog2 ctx Tl Tr u v i pB =
     and_then (ff3_round_encrypt clog2 ctx (if odd i then Tl else Tr) i pB (ctx_radix ctx) 16)
       (\<lambda>W. bytes_to_num_rev W (len_at u v i) (ctx_radix ctx))"

text \<open>A cipher context whose every \<open>EVP_EncryptUpdate\<close> succeeds.\<close>

definition cipher_ok :: "FPE_CTX \<Rightarrow> bool" where
  "cipher_ok ctx = (\<exists>E. cipher_ctx ctx = Some E \<and> (\<forall>block. E block \<noteq> None))"

section \<open>Instances for the examples\<close>

text \<open>
  The mathematical value of \<open>ceil(n * log2(radix))\<close>, the least \<open>k\<close> with
  \<open>radix ^ n \<le> 2 ^ k\<close>; on the small operands of the examples below the
  floating-point expression has this value. The examples use a toy block cipher in
  place of AES and SM4: it XORs the block with the first 16 key bytes and reverses it.
\<close>

definition clog2_exact :: "nat \<Rightarrow> nat \<Rightarrow> nat" where
  "clog2_exact n radix =
     (case find (\<lambda>k. radix ^ n \<le> 2 ^ k) [0..<Suc (32 * n)] of Some k \<Rightarrow> k | None \<Rightarrow> 0)"

definition toy_cipher :: "byte list \<Rightarrow> block_cipher" where
  "toy_cipher key = (\<lambda>block. Some (rev (map2 (XOR) block (take 16 key))))"

definition toy_openssl :: evp where
  "toy_openssl algo bits key = Ready (toy_cipher key)"

definition toy_key :: "byte list" where
  "toy_key = [0x2B, 0x7E, 0x15, 0x16, 0x28, 0xAE, 0xD2, 0xA6,
              0xAB, 0xF7, 0x15, 0x88, 0x09, 0xCF, 0x4F, 0x3C]"

text \<open>Contexts initialised with the toy cipher, radix 10.\<close>

definition toy_ctx :: "int \<Rightarrow> FPE_CTX" where
  "toy_ctx mode = snd (FPE_CTX_init toy_openssl FPE_CTX_new mode FPE_ALGO_AES toy_key 128 10)"

text \<open>A context initialised for FF3 with a key of 32 bytes, radix 10.\<close>

definition toy_key32 :: "byte list" where
  "toy_key32 = [1, 2, 3, 4, 5, 6, 7, 8, 9, 10, 11, 12, 13, 14, 15, 16,
                17, 18, 19, 20, 21, 22, 23, 24, 25, 26, 27, 28, 29, 30, 31, 32]"

definition toy_ctx32 :: FPE_CTX where
  "toy_ctx32 = snd (FPE_CTX_init toy_openssl FPE_CTX_new FPE_MODE_FF3 FPE_ALGO_AES toy_key32 256 10)"

section \<open>Lemmas about the codec\<close>

lemma unat_uchar [simp]: "unat (uchar n) = n mod 256"
  by (simp add: uchar_def unat_of_nat)

lemma unat_byte_less: "unat (b :: byte) < 256"
  using unsigned_less [of b, where ?'a = nat] by simp

lemma length_mul_add_pass [simp]: "length (mul_add_pass radix c bs) = length bs"
  by (induction bs arbitrary: c) (auto simp: Let_def)

lemma le_val_bound: "le_val bs < 256 ^ length bs"
proof (induction bs)
  case Nil show ?case by simp
next
  case (Cons b bs)
  have "unat b < 256" by (rule unat_byte_less)
  moreover have "le_val bs + 1 \<le> 256 ^ length bs" using Cons by simp
  then have "256 * (le_val bs + 1) \<le> 256 * 256 ^ length bs" by (rule mult_le_mono2)
  ultimately show ?case by simp
qed

lemma be_val_bound: "be_val bs < 256 ^ length bs"
proof (induction bs)
  case Nil show ?case by simp
next
  case (Cons b bs)
  have "unat b + 1 \<le> 256" using unat_byte_less [of b] by arith
  then have le: "(unat b + 1) * 256 ^ length bs \<le> 256 * 256 ^ length bs"
    by (rule mult_le_mono1)
  have lt: "unat b * 256 ^ length bs + be_val bs < (unat b + 1) * 256 ^ length bs"
    using Cons by simp
  from less_le_trans [OF lt le] show ?case by simp
qed

lemma be_val_append: "be_val (xs @ ys) = be_val xs * 256 ^ length ys + be_val ys"
  by (induction xs) (simp_all add: power_add algebra_simps)

lemma be_val_rev: "be_val (rev bs) = le_val bs"
  by (induction bs) (simp_all add: be_val_append)


lemma le_val_mul_add_pass:
  "le_val (mul_add_pass radix c bs) = (le_val bs * radix + c) mod 256 ^ length bs"
proof (induction bs arbitrary: c)
  case Nil show ?case by simp
next
  case (Cons b bs)
  define tmp where "tmp = unat b * radix + c"
  have "le_val (mul_add_pass radix c (b # bs))
        = tmp mod 256 + 256 * ((le_val bs * radix + tmp div 256) mod 256 ^ length bs)"
    by (simp add: Let_def tmp_def Cons.IH)
  also have "\<dots> = (tmp mod 256 + 256 * (le_val bs * radix + tmp div 256)) mod (256 * 256 ^ length bs)"
    by (simp add: mod_mult2_eq)
  also have "tmp mod 256 + 256 * (le_val bs * radix + tmp div 256) = le_val (b # bs) * radix + c"
    by (simp add: tmp_def algebra_simps)
  finally show ?case by simp
qed

lemma length_horner_step [simp]: "length (horner_step radix out d) = length out"
  by (simp add: horner_step_def)

lemma be_val_horner_step:
  "be_val (horner_step radix out d) = (be_val out * radix + d) mod 256 ^ length out"
  by (simp add: horner_step_def be_val_rev le_val_mul_add_pass) (simp add: be_val_rev [symmetric])

lemma length_foldl_horner [simp]:
  "length (foldl (horner_step radix) acc x) = length acc"
  by (induction x arbitrary: acc) simp_all

lemma be_val_foldl_horner:
  "be_val (foldl (horner_step radix) acc x)
   = foldl (\<lambda>a d. a * radix + d) (be_val acc) x mod 256 ^ length acc"
proof (induction x arbitrary: acc)
  case Nil
  show ?case using be_val_bound [of acc] by simp
next
  case (Cons d x)
  have step: "foldl (\<lambda>a d. a * radix + d) (v mod M) x mod M = foldl (\<lambda>a d. a * radix + d) v x mod M"
    for v M
  proof (induction x arbitrary: v)
    case Nil show ?case by simp
  next
    case (Cons e x)
    have "foldl (\<lambda>a d. a * radix + d) (v mod M * radix + e) x mod M
          = foldl (\<lambda>a d. a * radix + d) ((v mod M * radix + e) mod M) x mod M"
      by (simp add: Cons.IH)
    also have "(v mod M * radix + e) mod M = (v * radix + e) mod M"
      by (metis mod_add_left_eq mod_mult_left_eq)
    also have "foldl (\<lambda>a d. a * radix + d) ((v * radix + e) mod M) x mod M
          = foldl (\<lambda>a d. a * radix + d) (v * radix + e) x mod M"
      by (simp add: Cons.IH)
    finally show ?case by simp
  qed
  show ?case by (simp add: Cons.IH be_val_horner_step step)
qed

lemma be_val_replicate_zero [simp]: "be_val (replicate n 0) = 0"
  by (induction n) simp_all

lemma be_val_num_to_bytes:
  "be_val (num_to_bytes x radix w) = num_val radix x mod 256 ^ w"
  by (simp add: num_to_bytes_def num_val_def be_val_foldl_horner)

lemma div_pass_correct:
  "rem < radix \<Longrightarrow> div_pass radix rem ts = (q, r) \<Longrightarrow>
   length q = length ts \<and>
   be_val q = (rem * 256 ^ length ts + be_val ts) div radix \<and>
   r = (rem * 256 ^ length ts + be_val ts) mod radix"
proof (induction ts arbitrary: rem q r)
  case Nil
  then show ?case by simp
next
  case (Cons t ts)
  define tmp where "tmp = rem * 256 + unat t"
  obtain q' r' where qr: "div_pass radix (tmp mod radix) ts = (q', r')"
    by (cases "div_pass radix (tmp mod radix) ts")
  from Cons.prems have radix_pos: "0 < radix" by simp
  have IH: "length q' = length ts \<and>
      be_val q' = (tmp mod radix * 256 ^ length ts + be_val ts) div radix \<and>
      r' = (tmp mod radix * 256 ^ length ts + be_val ts) mod radix"
    using Cons.IH [OF _ qr] radix_pos by simp
  have q_eq: "q = uchar (tmp div radix) # q'" and r_eq: "r = r'"
    using Cons.prems(2) qr by (simp_all add: tmp_def Let_def)
  have small: "tmp div radix < 256"
  proof -
    have "tmp < (rem + 1) * 256" using unat_byte_less [of t] by (simp add: tmp_def)
    also have "\<dots> \<le> radix * 256" using Cons.prems(1) by (intro mult_le_mono1) simp
    finally have "tmp < radix * 256" .
    then show ?thesis by (simp add: less_mult_imp_div_less)
  qed
  have total: "rem * 256 ^ length (t # ts) + be_val (t # ts) = tmp * 256 ^ length ts + be_val ts"
    by (simp add: tmp_def algebra_simps)
  have split: "tmp * 256 ^ length ts + be_val ts
      = (tmp div radix) * 256 ^ length ts * radix + (tmp mod radix * 256 ^ length ts + be_val ts)"
  proof -
    have "tmp * 256 ^ length ts = (tmp div radix * radix + tmp mod radix) * 256 ^ length ts"
      by simp
    also have "\<dots> = (tmp div radix) * 256 ^ length ts * radix + tmp mod radix * 256 ^ length ts"
      by (simp only: distrib_right mult.assoc mult.commute [of radix])
    finally show ?thesis by (simp only: add.assoc)
  qed
  have len: "length q = length (t # ts)" using IH by (simp add: q_eq)
  have bq: "be_val q = (tmp div radix) * 256 ^ length ts + be_val q'"
    using small IH by (simp add: q_eq)
  have "(tmp * 256 ^ length ts + be_val ts) div radix
      = (tmp div radix) * 256 ^ length ts + (tmp mod radix * 256 ^ length ts + be_val ts) div radix"
    using radix_pos by (subst split) simp
  moreover have "(tmp * 256 ^ length ts + be_val ts) mod radix
      = (tmp mod radix * 256 ^ length ts + be_val ts) mod radix"
    by (subst split) simp
  ultimately show ?case
    using IH len bq by (simp only: total r_eq)
qed


lemma digits_loop_le_digits:
  "0 < radix \<Longrightarrow> digits_loop n radix temp = le_digits n radix (be_val temp)"
proof (induction n arbitrary: temp)
  case 0
  show ?case by simp
next
  case (Suc n)
  obtain q r where qr: "div_pass radix 0 temp = (q, r)"
    by (cases "div_pass radix 0 temp")
  from div_pass_correct [OF Suc.prems qr]
  have "be_val q = be_val temp div radix" and "r = be_val temp mod radix" by simp_all
  then show ?case using Suc.IH [OF Suc.prems, of q] qr by simp
qed

lemma length_le_digits [simp]: "length (le_digits n radix v) = n"
  by (induction n arbitrary: v) simp_all

lemma le_digits_less: "0 < radix \<Longrightarrow> d \<in> set (le_digits n radix v) \<Longrightarrow> d < radix"
  by (induction n arbitrary: v) auto

lemma num_val_snoc: "num_val radix (xs @ [d]) = num_val radix xs * radix + d"
  by (simp add: num_val_def)

lemma num_val_bound:
  "\<forall>d \<in> set x. d < radix \<Longrightarrow> num_val radix x < radix ^ length x"
proof (induction x rule: rev_induct)
  case Nil
  show ?case by (simp add: num_val_def)
next
  case (snoc d x)
  then have IH: "num_val radix x + 1 \<le> radix ^ length x" and d: "d < radix" by simp_all
  from IH have "(num_val radix x + 1) * radix \<le> radix ^ length x * radix"
    by (rule mult_le_mono1)
  moreover have "num_val radix x * radix + d < (num_val radix x + 1) * radix"
    using d by simp
  ultimately have "num_val radix x * radix + d < radix ^ length x * radix"
    by (rule less_le_trans [rotated])
  then show ?case by (simp add: num_val_snoc mult.commute)
qed

lemma le_digits_num_val:
  "\<forall>d \<in> set x. d < radix \<Longrightarrow> le_digits (length x) radix (num_val radix x) = rev x"
proof (induction x rule: rev_induct)
  case Nil
  show ?case by simp
next
  case (snoc d x)
  then have d: "d < radix" and IH: "le_digits (length x) radix (num_val radix x) = rev x"
    by simp_all
  from d have "(num_val radix x * radix + d) mod radix = d"
    and "(num_val radix x * radix + d) div radix = num_val radix x"
    by simp_all
  then show ?case using IH by (simp add: num_val_snoc)
qed

lemma codec_roundtrip_natural:
  assumes "0 < radix" "\<forall>d \<in> set x. d < radix" "radix ^ length x \<le> 256 ^ w" "w \<le> 256"
  shows "bytes_to_num (num_to_bytes x radix w) (length x) radix = Inr x"
proof -
  have len: "length (num_to_bytes x radix w) = w" by (simp add: num_to_bytes_def)
  have "num_val radix x < 256 ^ w"
    using num_val_bound [OF assms(2)] assms(3) by (rule less_le_trans)
  then have "be_val (num_to_bytes x radix w) = num_val radix x"
    by (simp add: be_val_num_to_bytes)
  then have "digits_loop (length x) radix (num_to_bytes x radix w) = rev x"
    using assms(1,2) by (simp add: digits_loop_le_digits le_digits_num_val)
  then show ?thesis using assms(1,4) len by (simp add: bytes_to_num_def)
qed

lemma num_to_bytes_rev_eq: "num_to_bytes_rev x radix w = num_to_bytes (rev x) radix w"
  by (simp add: num_to_bytes_rev_def num_to_bytes_def)

lemma codec_roundtrip_reversed:
  assumes "0 < radix" "\<forall>d \<in> set x. d < radix" "radix ^ length x \<le> 256 ^ w" "w \<le> 256"
  shows "bytes_to_num_rev (num_to_bytes_rev x radix w) (length x) radix = Inr x"
proof -
  have len: "length (num_to_bytes (rev x) radix w) = w" by (simp add: num_to_bytes_def)
  have "num_val radix (rev x) < radix ^ length (rev x)"
    using assms(2) by (intro num_val_bound) simp
  then have "num_val radix (rev x) < 256 ^ w" using assms(3) by simp
  then have "be_val (num_to_bytes (rev x) radix w) = num_val radix (rev x)"
    by (simp add: be_val_num_to_bytes)
  moreover have "le_digits (length (rev x)) radix (num_val radix (rev x)) = rev (rev x)"
    using assms(2) by (intro le_digits_num_val) simp
  ultimately have "digits_loop (length x) radix (num_to_bytes (rev x) radix w) = x"
    using assms(1) by (simp add: digits_loop_le_digits)
  then show ?thesis using assms(1,4) len by (simp add: bytes_to_num_rev_def num_to_bytes_rev_eq)
qed


section \<open>Lemmas about the digit loops\<close>

lemma length_add_digits [simp]:
  "length (add_digits radix c as ys) = min (length as) (length ys)"
  by (induction radix c as ys rule: add_digits.induct) (simp_all add: Let_def)

lemma length_sub_digits [simp]:
  "length (sub_digits radix c as ys) = min (length as) (length ys)"
  by (induction radix c as ys rule: sub_digits.induct) (simp_all add: Let_def)

lemma add_digits_less:
  "0 < radix \<Longrightarrow> d \<in> set (add_digits radix c as ys) \<Longrightarrow> d < radix"
  by (induction radix c as ys rule: add_digits.induct) (auto simp: Let_def)

lemma sub_add_step:
  fixes a y c radix :: nat
  assumes "a < radix" "y < radix" "c \<le> 1"
  shows "(if int ((a + y + c) mod radix) - int y - int c < 0
          then nat (int ((a + y + c) mod radix) - int y - int c + int radix)
          else nat (int ((a + y + c) mod radix) - int y - int c)) = a"
    and "(int ((a + y + c) mod radix) - int y - int c < 0) = ((a + y + c) div radix = 1)"
    and "(a + y + c) div radix \<le> 1"
proof -
  have lt2: "a + y + c < 2 * radix" using assms by linarith
  show "(a + y + c) div radix \<le> 1"
  proof -
    have "(a + y + c) div radix < 2" using lt2 by (intro less_mult_imp_div_less) simp
    then show ?thesis by simp
  qed
  consider (small) "a + y + c < radix" | (big) "radix \<le> a + y + c" by linarith
  then show "(if int ((a + y + c) mod radix) - int y - int c < 0
          then nat (int ((a + y + c) mod radix) - int y - int c + int radix)
          else nat (int ((a + y + c) mod radix) - int y - int c)) = a"
  proof cases
    case small
    then show ?thesis by simp
  next
    case big
    then have "(a + y + c) mod radix = a + y + c - radix"
      using lt2 by (simp add: mod_if)
    then show ?thesis using big assms by (simp add: of_nat_diff)
  qed
  consider (small) "a + y + c < radix" | (big) "radix \<le> a + y + c" by linarith
  then show "(int ((a + y + c) mod radix) - int y - int c < 0) = ((a + y + c) div radix = 1)"
  proof cases
    case small
    then show ?thesis by simp
  next
    case big
    then have m: "(a + y + c) mod radix = a + y + c - radix"
      using lt2 by (simp add: mod_if)
    have "(a + y + c) div radix = 1"
      using big lt2 assms(1) by (simp add: div_nat_eqI)
    then show ?thesis using m big assms by (simp add: of_nat_diff)
  qed
qed


lemma sub_digits_add_digits:
  "c \<le> 1 \<Longrightarrow> \<forall>a \<in> set as. a < radix \<Longrightarrow> \<forall>y \<in> set ys. y < radix \<Longrightarrow>
   length as \<le> length ys \<Longrightarrow>
   sub_digits radix c (add_digits radix c as ys) ys = as"
proof (induction radix c as ys rule: add_digits.induct)
  case (1 radix carry a as y ys)
  let ?s = "a + y + carry"
  from "1.prems" have a: "a < radix" and y: "y < radix" and c: "carry \<le> 1" by simp_all
  note st = sub_add_step [OF a y c]
  have IH: "sub_digits radix (?s div radix) (add_digits radix (?s div radix) as ys) ys = as"
    using "1.IH" [of ?s] "1.prems" st(3) by simp
  show ?case
  proof (cases "int (?s mod radix) - int y - int carry < 0")
    case True
    then have "?s div radix = 1" using st(2) by simp
    then show ?thesis using True st(1) IH by (simp add: Let_def)
  next
    case False
    then have "?s div radix = 0" using st(2,3) by linarith
    then show ?thesis using False st(1) IH by (simp add: Let_def)
  qed
qed simp_all

lemma length_digits_loop [simp]: "length (digits_loop n radix temp) = n"
  by (induction n arbitrary: temp) (simp_all add: split_beta)

lemma digits_loop_less:
  "0 < radix \<Longrightarrow> d \<in> set (digits_loop n radix temp) \<Longrightarrow> d < radix"
  by (simp add: digits_loop_le_digits le_digits_less)

lemma bytes_to_num_rev_Inr:
  assumes "bytes_to_num_rev bytes len radix = Inr y" "0 < radix"
  shows "length y = len" and "\<forall>d \<in> set y. d < radix"
  using assms by (auto simp: bytes_to_num_rev_def digits_loop_less split: if_splits)

lemma bytes_to_num_Inr:
  assumes "bytes_to_num bytes len radix = Inr y" "0 < radix"
  shows "length y = len" and "\<forall>d \<in> set y. d < radix"
  using assms by (auto simp: bytes_to_num_def digits_loop_less split: if_splits)

lemma bytes_to_num_rev_total:
  "length bytes \<le> 256 \<Longrightarrow> 0 < radix \<Longrightarrow> \<exists>y. bytes_to_num_rev bytes len radix = Inr y"
  by (simp add: bytes_to_num_rev_def)

lemma bytes_to_num_total:
  "length bytes \<le> 256 \<Longrightarrow> 0 < radix \<Longrightarrow> \<exists>y. bytes_to_num bytes len radix = Inr y"
  by (simp add: bytes_to_num_def)

section \<open>Lemmas about the block \<open>P\<close> of FF1\<close>

lemma and_255: "(n::nat) AND 255 = n mod 256"
proof -
  have "n AND mask 8 = n mod 256"
    by (simp add: take_bit_eq_mask [symmetric] take_bit_eq_mod)
  then show ?thesis by (simp add: mask_eq_exp_minus_1)
qed

lemma uchar_mod [simp]: "uchar (n mod 256) = uchar n"
  by (simp add: uchar_def word_eq_iff_unsigned [where ?'a = nat] unat_of_nat)

lemma length_be_bytes [simp]: "length (be_bytes k n) = k"
  by (induction k arbitrary: n) simp_all

lemma be_val_be_bytes: "be_val (be_bytes k n) = n mod 256 ^ k"
proof (induction k arbitrary: n)
  case 0
  show ?case by simp
next
  case (Suc k)
  have "be_val (be_bytes (Suc k) n) = (n div 256 mod 256 ^ k) * 256 + n mod 256"
    by (simp add: be_val_append Suc.IH)
  also have "\<dots> = n mod 256 ^ Suc k"
    by (simp add: mod_mult2_eq)
  finally show ?case .
qed

lemma be_bytes_3:
  "be_bytes 3 n = [uchar (n div 65536), uchar (n div 256), uchar n]"
proof -
  have "be_bytes (Suc (Suc (Suc 0))) n = [uchar (n div 256 div 256), uchar (n div 256), uchar n]"
    by simp
  moreover have "n div 256 div 256 = n div 65536" by (simp add: div_mult2_eq [symmetric])
  ultimately show ?thesis by (simp add: numeral_3_eq_3)
qed

lemma be_bytes_4:
  "be_bytes 4 n = [uchar (n div 16777216), uchar (n div 65536), uchar (n div 256), uchar n]"
proof -
  have "be_bytes (Suc (Suc (Suc (Suc 0)))) n
        = [uchar (n div 256 div 256 div 256), uchar (n div 256 div 256), uchar (n div 256), uchar n]"
    by simp
  moreover have "n div 256 div 256 = n div 65536" by (simp add: div_mult2_eq [symmetric])
  moreover have "n div 256 div 256 div 256 = n div 16777216" by (simp add: div_mult2_eq [symmetric])
  moreover have "(4::nat) = Suc (Suc (Suc (Suc 0)))" by simp
  ultimately show ?thesis by (simp only:)
qed

lemma ff1_P_bytes:
  "ff1_P radix u m t =
     [1, 2, 1] @ be_bytes 3 radix @ [10, uchar (u mod 256)] @ be_bytes 4 m @ be_bytes 4 t"
  by (simp add: ff1_P_def and_255 drop_bit_eq_div be_bytes_3 be_bytes_4)

section \<open>Lemmas about the round loops\<close>

lemma and_then_Inr [simp]: "and_then (Inr x) f = f x"
  by (simp add: and_then_def)

lemma and_then_Inl [simp]: "and_then (Inl e) f = Inl e"
  by (simp add: and_then_def)

lemma and_then_eq_Inr:
  "and_then r f = Inr z \<longleftrightarrow> (\<exists>x. r = Inr x \<and> f x = Inr z)"
  by (cases r) simp_all

lemma and_then_assoc:
  "and_then (and_then r f) g = and_then r (\<lambda>x. and_then (f x) g)"
  by (cases r) simp_all

lemma len_at_Suc_Suc [simp]: "len_at u v (Suc (Suc i)) = len_at u v i"
  by (simp add: len_at_def)

lemma len_at_add: "len_at u v i + len_at u v (Suc i) = u + v"
  by (simp add: len_at_def)

lemma ff1_encrypt_rounds_enc_loop:
  "ff1_encrypt_rounds ctx P tweak b d u v n i pA pB
   = enc_loop (ff1_F ctx P tweak b d u v) (ff1_add (ctx_radix ctx)) n i pA pB"
  by (induction n arbitrary: i pA pB) (simp_all add: ff1_F_def ff1_add_def len_at_def)

lemma ff1_decrypt_rounds_dec_loop:
  "ff1_decrypt_rounds ctx P tweak b d u v k pA pB
   = dec_loop (ff1_F ctx P tweak b d u v) (ff1_sub (ctx_radix ctx)) k pA pB"
  by (induction k arbitrary: pA pB) (simp_all add: ff1_F_def ff1_sub_def len_at_def)

lemma ff3_encrypt_rounds_enc_loop:
  "ff3_encrypt_rounds clog2 ctx Tl Tr u v n i pA pB
   = enc_loop (ff3_F clog2 ctx Tl Tr u v) (add_digits (ctx_radix ctx) 0) n i pA pB"
  by (induction n arbitrary: i pA pB) (simp_all add: ff3_F_def len_at_def and_then_assoc)

lemma ff3_decrypt_rounds_dec_loop:
  "ff3_decrypt_rounds clog2 ctx Tl Tr u v k pA pB
   = dec_loop (ff3_F clog2 ctx Tl Tr u v) (sub_digits (ctx_radix ctx) 0) k pA pB"
  by (induction k arbitrary: pA pB) (simp_all add: ff3_F_def len_at_def and_then_assoc)

text \<open>The lengths of the two arrays, through the rounds.\<close>

lemma enc_loop_length:
  assumes F: "\<And>i pB y. F i pB = Inr y \<Longrightarrow> length y = len_at u v i"
    and A: "\<And>a y. length y = length a \<Longrightarrow> length (addf a y) = length a"
  shows "enc_loop F addf n i pA pB = Inr (cA, cB) \<Longrightarrow>
         length pA = len_at u v i \<Longrightarrow> length pB = len_at u v (Suc i) \<Longrightarrow>
         length cA = len_at u v (i + n) \<and> length cB = len_at u v (Suc (i + n))"
proof (induction n arbitrary: i pA pB)
  case 0
  then show ?case by simp
next
  case (Suc n)
  from Suc.prems(1) obtain y where y: "F i pB = Inr y"
    and rest: "enc_loop F addf n (Suc i) pB (addf pA y) = Inr (cA, cB)"
    by (auto simp: and_then_eq_Inr)
  have "length (addf pA y) = len_at u v (Suc (Suc i))"
    using A [of y pA] F [OF y] Suc.prems(2) by simp
  from Suc.IH [OF rest Suc.prems(3) this] show ?case by simp
qed

lemma dec_loop_length:
  assumes F: "\<And>i pB y. F i pB = Inr y \<Longrightarrow> length y = len_at u v i"
    and S: "\<And>a y. length y = length a \<Longrightarrow> length (subf a y) = length a"
  shows "dec_loop F subf k pA pB = Inr (cA, cB) \<Longrightarrow>
         length pA = len_at u v k \<Longrightarrow> length pB = len_at u v (Suc k) \<Longrightarrow>
         length cA = len_at u v 0 \<and> length cB = len_at u v (Suc 0)"
proof (induction k arbitrary: pA pB)
  case 0
  then show ?case by simp
next
  case (Suc k)
  from Suc.prems(1) obtain y where y: "F k pA = Inr y"
    and rest: "dec_loop F subf k (subf pB y) pA = Inr (cA, cB)"
    by (auto simp: and_then_eq_Inr)
  have "length (subf pB y) = len_at u v k"
    using S [of y pB] F [OF y] Suc.prems(3) by simp
  from Suc.IH [OF rest this Suc.prems(2)] show ?case .
qed

text \<open>The digits after at least two rounds are all below the radix.\<close>

lemma enc_loop_digits_step:
  assumes A: "\<And>a y. \<forall>d \<in> set (addf a y). d < r"
  shows "enc_loop F addf (Suc n) i pA pB = Inr (cA, cB) \<Longrightarrow> \<forall>d \<in> set pB. d < r \<Longrightarrow>
         (\<forall>d \<in> set cA. d < r) \<and> (\<forall>d \<in> set cB. d < r)"
proof (induction n arbitrary: i pA pB)
  case 0
  then show ?case using A by (auto simp: and_then_eq_Inr)
next
  case (Suc n)
  from Suc.prems(1) obtain y where
    rest: "enc_loop F addf (Suc n) (Suc i) pB (addf pA y) = Inr (cA, cB)"
    by (auto simp: and_then_eq_Inr)
  from Suc.IH [OF rest] A show ?case by blast
qed

lemma enc_loop_digits:
  assumes A: "\<And>a y. \<forall>d \<in> set (addf a y). d < r"
    and run: "enc_loop F addf (Suc (Suc n)) i pA pB = Inr (cA, cB)"
  shows "(\<forall>d \<in> set cA. d < r) \<and> (\<forall>d \<in> set cB. d < r)"
proof -
  from run obtain y where
    rest: "enc_loop F addf (Suc n) (Suc i) pB (addf pA y) = Inr (cA, cB)"
    by (auto simp: and_then_eq_Inr)
  from enc_loop_digits_step [of addf r F n "Suc i" pB "addf pA y" cA cB, OF A rest] A
  show ?thesis by blast
qed

text \<open>Decryption undoes encryption, round by round.\<close>

lemma dec_loop_enc_loop:
  assumes F: "\<And>i pB y. F i pB = Inr y \<Longrightarrow> length y = len_at u v i \<and> (\<forall>d \<in> set y. d < r)"
    and A: "\<And>a y. length y = length a \<Longrightarrow>
                length (addf a y) = length a \<and> (\<forall>d \<in> set (addf a y). d < r)"
    and I: "\<And>a y. length y = length a \<Longrightarrow> \<forall>d \<in> set a. d < r \<Longrightarrow> \<forall>d \<in> set y. d < r \<Longrightarrow>
                subf (addf a y) y = a"
  shows "enc_loop F addf n i pA pB = Inr (cA, cB) \<Longrightarrow>
         length pA = len_at u v i \<Longrightarrow> length pB = len_at u v (Suc i) \<Longrightarrow>
         \<forall>d \<in> set pA. d < r \<Longrightarrow> \<forall>d \<in> set pB. d < r \<Longrightarrow>
         dec_loop F subf (i + n) cA cB = dec_loop F subf i pA pB"
proof (induction n arbitrary: i pA pB)
  case 0
  then show ?case by simp
next
  case (Suc n)
  from Suc.prems(1) obtain y where y: "F i pB = Inr y"
    and rest: "enc_loop F addf n (Suc i) pB (addf pA y) = Inr (cA, cB)"
    by (auto simp: and_then_eq_Inr)
  from F [OF y] Suc.prems(2) have ly: "length y = length pA" and dy: "\<forall>d \<in> set y. d < r"
    by simp_all
  from A [OF ly] Suc.prems(2)
  have la: "length (addf pA y) = len_at u v (Suc (Suc i))"
    and da: "\<forall>d \<in> set (addf pA y). d < r" by simp_all
  have "dec_loop F subf (Suc i + n) cA cB = dec_loop F subf (Suc i) pB (addf pA y)"
    by (rule Suc.IH [OF rest Suc.prems(3) la Suc.prems(5) da])
  also have "\<dots> = dec_loop F subf i (subf (addf pA y) y) pB"
    using y by simp
  also have "subf (addf pA y) y = pA"
    by (rule I [OF ly Suc.prems(4) dy])
  finally show ?case by simp
qed

text \<open>The loops return when the round function does.\<close>

lemma enc_loop_total:
  assumes F: "\<And>i pB. length pB = len_at u v (Suc i) \<Longrightarrow>
                \<exists>y. F i pB = Inr y \<and> length y = len_at u v i"
    and A: "\<And>a y. length y = length a \<Longrightarrow> length (addf a y) = length a"
  shows "length pA = len_at u v i \<Longrightarrow> length pB = len_at u v (Suc i) \<Longrightarrow>
         \<exists>c. enc_loop F addf n i pA pB = Inr c"
proof (induction n arbitrary: i pA pB)
  case 0
  then show ?case by simp
next
  case (Suc n)
  from F [OF Suc.prems(2)] obtain y where y: "F i pB = Inr y" "length y = len_at u v i"
    by blast
  have "length (addf pA y) = len_at u v (Suc (Suc i))"
    using A [of y pA] y(2) Suc.prems(1) by simp
  from Suc.IH [OF Suc.prems(2) this] y(1) show ?case by simp
qed

lemma dec_loop_total:
  assumes F: "\<And>i pB. length pB = len_at u v (Suc i) \<Longrightarrow>
                \<exists>y. F i pB = Inr y \<and> length y = len_at u v i"
    and S: "\<And>a y. length y = length a \<Longrightarrow> length (subf a y) = length a"
  shows "length pA = len_at u v k \<Longrightarrow> length pB = len_at u v (Suc k) \<Longrightarrow>
         \<exists>c. dec_loop F subf k pA pB = Inr c"
proof (induction k arbitrary: pA pB)
  case 0
  then show ?case by simp
next
  case (Suc k)
  from F [OF Suc.prems(1)] obtain y where y: "F k pA = Inr y" "length y = len_at u v k"
    by blast
  have "length (subf pB y) = len_at u v k"
    using S [of y pB] y(2) Suc.prems(2) by simp
  from Suc.IH [OF this Suc.prems(1)] y(1) show ?case by simp
qed

section \<open>Lemmas about the engines\<close>

lemma length_fpe_reverse_bytes [simp]: "length (fpe_reverse_bytes bytes) = length bytes"
proof -
  have "length (foldl (\<lambda>bs i. (let tmp = bs ! i in bs[i := bs ! (n - i - 1), n - i - 1 := tmp]))
          bs is) = length bs" for n bs "is"
    by (induction "is" arbitrary: bs) (simp_all add: Let_def)
  then show ?thesis by (simp add: fpe_reverse_bytes_def Let_def)
qed

lemma EVP_EncryptUpdate_length:
  "EVP_EncryptUpdate E block = Some out \<Longrightarrow> length out = 16"
  by (auto simp: EVP_EncryptUpdate_def split: option.splits)

lemma EVP_EncryptUpdate_total:
  "\<forall>block. E block \<noteq> None \<Longrightarrow> \<exists>out. EVP_EncryptUpdate E block = Some out"
  by (auto simp: EVP_EncryptUpdate_def split: option.splits)

lemma ff3_round_encrypt_length:
  "ff3_round_encrypt clog2 ctx T round B radix 16 = Inr W \<Longrightarrow> length W = 16"
  by (auto simp: ff3_round_encrypt_def Let_def EVP_EncryptUpdate_length
      split: option.splits)

lemma ff3_round_encrypt_total:
  "cipher_ok ctx \<Longrightarrow> \<exists>W. ff3_round_encrypt clog2 ctx T round B radix 16 = Inr W"
proof -
  assume "cipher_ok ctx"
  then obtain E where E: "cipher_ctx ctx = Some E" "\<forall>block. E block \<noteq> None"
    by (auto simp: cipher_ok_def)
  show ?thesis
    using EVP_EncryptUpdate_total [OF E(2)] E(1)
    by (simp add: ff3_round_encrypt_def Let_def split: option.splits) (metis option.distinct(1))
qed

lemma ff3_F_Inr:
  assumes "ff3_F clog2 ctx Tl Tr u v i pB = Inr y" "0 < ctx_radix ctx"
  shows "length y = len_at u v i \<and> (\<forall>d \<in> set y. d < ctx_radix ctx)"
  using assms bytes_to_num_rev_Inr
  by (auto simp: ff3_F_def and_then_eq_Inr)

lemma ff3_F_total:
  assumes "cipher_ok ctx" "0 < ctx_radix ctx"
  shows "\<exists>y. ff3_F clog2 ctx Tl Tr u v i pB = Inr y \<and> length y = len_at u v i"
proof -
  obtain W where W: "ff3_round_encrypt clog2 ctx (if odd i then Tl else Tr) i pB (ctx_radix ctx) 16
      = Inr W"
    using ff3_round_encrypt_total [OF assms(1)] by blast
  then have "length W \<le> 256" using ff3_round_encrypt_length [OF W] by simp
  then obtain y where y: "bytes_to_num_rev W (len_at u v i) (ctx_radix ctx) = Inr y"
    using bytes_to_num_rev_total assms(2) by blast
  then show ?thesis using W bytes_to_num_rev_Inr(1) [OF y assms(2)] by (simp add: ff3_F_def)
qed

lemma add_digits_shape:
  "0 < radix \<Longrightarrow> length y = length a \<Longrightarrow>
   length (add_digits radix 0 a y) = length a \<and> (\<forall>d \<in> set (add_digits radix 0 a y). d < radix)"
  by (simp add: add_digits_less)

lemma ff1_add_shape:
  "0 < radix \<Longrightarrow> length y = length a \<Longrightarrow>
   length (ff1_add radix a y) = length a \<and> (\<forall>d \<in> set (ff1_add radix a y). d < radix)"
  by (auto simp: ff1_add_def add_digits_less)

lemma ff1_sub_add:
  "length y = length a \<Longrightarrow> \<forall>d \<in> set a. d < radix \<Longrightarrow> \<forall>d \<in> set y. d < radix \<Longrightarrow>
   ff1_sub radix (ff1_add radix a y) y = a"
  by (simp add: ff1_sub_def ff1_add_def sub_digits_add_digits)

lemma ff3_sub_add:
  "length y = length a \<Longrightarrow> \<forall>d \<in> set a. d < radix \<Longrightarrow> \<forall>d \<in> set y. d < radix \<Longrightarrow>
   sub_digits radix 0 (add_digits radix 0 a y) y = a"
  by (simp add: sub_digits_add_digits)

text \<open>The shape all six engine functions share after their argument checks.\<close>

lemma feistel_output:
  assumes F: "\<And>i pB y. F i pB = Inr y \<Longrightarrow> length y = len_at u v i"
    and A: "\<And>a y. length y = length a \<Longrightarrow> length (addf a y) = length a"
    and D: "\<And>a y. \<forall>d \<in> set (addf a y). d < r"
    and len: "u + v = length inp"
    and n: "2 \<le> n" "even n"
    and run: "feistel_encrypt F addf n u v inp = Inr out"
  shows "length out = length inp \<and> (\<forall>d \<in> set out. d < r)"
proof -
  from n(1) obtain k where k: "n = Suc (Suc k)"
    by (metis Suc_le_D numeral_2_eq_2 Suc_le_mono)
  from run obtain cA cB where
    enc: "enc_loop F addf n 0 (take u inp) (drop u inp) = Inr (cA, cB)"
    and out: "out = take u cA @ take v cB"
    by (auto simp: feistel_encrypt_def and_then_eq_Inr)
  have lA: "length (take u inp) = len_at u v 0" and lB: "length (drop u inp) = len_at u v (Suc 0)"
    using len by (simp_all add: len_at_def)
  from enc_loop_length [of F u v addf, OF F A enc lA lB]
  have lc: "length cA = u" "length cB = v" using n(2) by (simp_all add: len_at_def)
  then have "length (take u cA @ take v cB) = u + v" by simp
  moreover from enc_loop_digits [of addf r F k 0 "take u inp" "drop u inp" cA cB, OF D]
    enc k
  have "\<forall>d \<in> set cA. d < r" "\<forall>d \<in> set cB. d < r" by simp_all
  ultimately show ?thesis using out len by (auto dest: in_set_takeD)
qed

lemma feistel_roundtrip:
  assumes F: "\<And>i pB y. F i pB = Inr y \<Longrightarrow> length y = len_at u v i \<and> (\<forall>d \<in> set y. d < r)"
    and A: "\<And>a y. length y = length a \<Longrightarrow>
                length (addf a y) = length a \<and> (\<forall>d \<in> set (addf a y). d < r)"
    and I: "\<And>a y. length y = length a \<Longrightarrow> \<forall>d \<in> set a. d < r \<Longrightarrow> \<forall>d \<in> set y. d < r \<Longrightarrow>
                subf (addf a y) y = a"
    and len: "u + v = length inp"
    and digits: "\<forall>d \<in> set inp. d < r"
    and n: "even n"
    and run: "feistel_encrypt F addf n u v inp = Inr out"
  shows "feistel_decrypt F subf n u v out = Inr inp"
proof -
  from run obtain cA cB where
    enc: "enc_loop F addf n 0 (take u inp) (drop u inp) = Inr (cA, cB)"
    and out: "out = take u cA @ take v cB"
    by (auto simp: feistel_encrypt_def and_then_eq_Inr)
  have lA: "length (take u inp) = len_at u v 0" and lB: "length (drop u inp) = len_at u v (Suc 0)"
    using len by (simp_all add: len_at_def)
  have F': "\<And>i pB y. F i pB = Inr y \<Longrightarrow> length y = len_at u v i" using F by blast
  have A': "\<And>a y. length y = length a \<Longrightarrow> length (addf a y) = length a" using A by blast
  from enc_loop_length [of F u v addf, OF F' A' enc lA lB] n
  have lc: "length cA = u" "length cB = v" by (simp_all add: len_at_def)
  then have parts: "take u out = cA" "drop u out = cB" using out by simp_all
  have dA: "\<forall>d \<in> set (take u inp). d < r" and dB: "\<forall>d \<in> set (drop u inp). d < r"
    using digits by (auto dest: in_set_takeD in_set_dropD)
  have "dec_loop F subf (0 + n) cA cB = dec_loop F subf 0 (take u inp) (drop u inp)"
    by (rule dec_loop_enc_loop [of F u v r addf subf, OF F A I enc lA lB dA dB])
  then show ?thesis using parts len by (simp add: feistel_decrypt_def)
qed

lemma feistel_encrypt_total:
  assumes F: "\<And>i pB. length pB = len_at u v (Suc i) \<Longrightarrow>
                \<exists>y. F i pB = Inr y \<and> length y = len_at u v i"
    and A: "\<And>a y. length y = length a \<Longrightarrow> length (addf a y) = length a"
    and len: "u + v = length inp"
  shows "\<exists>out. feistel_encrypt F addf n u v inp = Inr out"
proof -
  have lA: "length (take u inp) = len_at u v 0" and lB: "length (drop u inp) = len_at u v (Suc 0)"
    using len by (simp_all add: len_at_def)
  from enc_loop_total [of u v F addf, OF F A lA lB]
  obtain c where "enc_loop F addf n 0 (take u inp) (drop u inp) = Inr c" by blast
  then show ?thesis by (cases c) (simp add: feistel_encrypt_def)
qed

lemma feistel_decrypt_total:
  assumes F: "\<And>i pB. length pB = len_at u v (Suc i) \<Longrightarrow>
                \<exists>y. F i pB = Inr y \<and> length y = len_at u v i"
    and S: "\<And>a y. length y = length a \<Longrightarrow> length (subf a y) = length a"
    and len: "u + v = length inp"
    and n: "even n"
  shows "\<exists>out. feistel_decrypt F subf n u v inp = Inr out"
proof -
  have lA: "length (take u inp) = len_at u v n" and lB: "length (drop u inp) = len_at u v (Suc n)"
    using len n by (simp_all add: len_at_def)
  from dec_loop_total [of u v F subf, OF F S lA lB]
  obtain c where "dec_loop F subf n (take u inp) (drop u inp) = Inr c" by blast
  then show ?thesis by (cases c) (simp add: feistel_decrypt_def)
qed

text \<open>The engines of FF3 and FF3-1 as instances.\<close>

lemma ff3_encrypt_feistel:
  "2 \<le> length inp \<Longrightarrow> length inp \<le> 256 \<Longrightarrow>
   length tweak = 0 \<or> length tweak = 7 \<or> length tweak = 8 \<Longrightarrow>
   ff3_encrypt clog2 ctx inp tweak =
     feistel_encrypt
       (ff3_F clog2 ctx (fst (ff3_tweak_halves tweak)) (snd (ff3_tweak_halves tweak))
          ((length inp + 1) div 2) (length inp - (length inp + 1) div 2))
       (add_digits (ctx_radix ctx) 0) 8
       ((length inp + 1) div 2) (length inp - (length inp + 1) div 2) inp"
  by (auto simp: ff3_encrypt_def feistel_encrypt_def Let_def split_beta
      ff3_encrypt_rounds_enc_loop)

lemma ff3_decrypt_feistel:
  "2 \<le> length inp \<Longrightarrow> length inp \<le> 256 \<Longrightarrow>
   length tweak = 0 \<or> length tweak = 7 \<or> length tweak = 8 \<Longrightarrow>
   ff3_decrypt clog2 ctx inp tweak =
     feistel_decrypt
       (ff3_F clog2 ctx (fst (ff3_tweak_halves tweak)) (snd (ff3_tweak_halves tweak))
          ((length inp + 1) div 2) (length inp - (length inp + 1) div 2))
       (sub_digits (ctx_radix ctx) 0) 8
       ((length inp + 1) div 2) (length inp - (length inp + 1) div 2) inp"
  by (auto simp: ff3_decrypt_def feistel_decrypt_def Let_def split_beta
      ff3_decrypt_rounds_dec_loop)

lemma ff3_1_encrypt_feistel:
  "2 \<le> length inp \<Longrightarrow> length inp \<le> 256 \<Longrightarrow>
   length tweak = 0 \<or> length tweak = 7 \<or> length tweak = 8 \<Longrightarrow>
   ff3_1_encrypt clog2 ctx inp tweak =
     feistel_encrypt
       (ff3_F clog2 ctx (fst (ff3_1_tweak_halves tweak)) (snd (ff3_1_tweak_halves tweak))
          ((length inp + 1) div 2) (length inp - (length inp + 1) div 2))
       (add_digits (ctx_radix ctx) 0) 8
       ((length inp + 1) div 2) (length inp - (length inp + 1) div 2) inp"
  by (auto simp: ff3_1_encrypt_def feistel_encrypt_def Let_def split_beta
      ff3_encrypt_rounds_enc_loop)

lemma ff3_1_decrypt_feistel:
  "2 \<le> length inp \<Longrightarrow> length inp \<le> 256 \<Longrightarrow>
   length tweak = 0 \<or> length tweak = 7 \<or> length tweak = 8 \<Longrightarrow>
   ff3_1_decrypt clog2 ctx inp tweak =
     feistel_decrypt
       (ff3_F clog2 ctx (fst (ff3_1_tweak_halves tweak)) (snd (ff3_1_tweak_halves tweak))
          ((length inp + 1) div 2) (length inp - (length inp + 1) div 2))
       (sub_digits (ctx_radix ctx) 0) 8
       ((length inp + 1) div 2) (length inp - (length inp + 1) div 2) inp"
  by (auto simp: ff3_1_decrypt_def feistel_decrypt_def Let_def split_beta
      ff3_decrypt_rounds_dec_loop)

lemma ff1_encrypt_feistel:
  "2 \<le> length inp \<Longrightarrow> length inp \<le> 256 \<Longrightarrow>
   ff1_encrypt clog2 ctx inp tweak =
     feistel_encrypt
       (ff1_F ctx (ff1_P (ctx_radix ctx) (length inp div 2) (length inp) (length tweak)) tweak
          (ceildiv (clog2 (length inp - length inp div 2) (ctx_radix ctx)) 8)
          (4 * ceildiv (ceildiv (clog2 (length inp - length inp div 2) (ctx_radix ctx)) 8) 4 + 4)
          (length inp div 2) (length inp - length inp div 2))
       (ff1_add (ctx_radix ctx)) 10
       (length inp div 2) (length inp - length inp div 2) inp"
  by (auto simp: ff1_encrypt_def feistel_encrypt_def Let_def split_beta
      ff1_encrypt_rounds_enc_loop)

lemma ff1_decrypt_feistel:
  "2 \<le> length inp \<Longrightarrow> length inp \<le> 256 \<Longrightarrow>
   ff1_decrypt clog2 ctx inp tweak =
     feistel_decrypt
       (ff1_F ctx (ff1_P (ctx_radix ctx) (length inp div 2) (length inp) (length tweak)) tweak
          (ceildiv (clog2 (length inp - length inp div 2) (ctx_radix ctx)) 8)
          (4 * ceildiv (ceildiv (clog2 (length inp - length inp div 2) (ctx_radix ctx)) 8) 4 + 4)
          (length inp div 2) (length inp - length inp div 2))
       (ff1_sub (ctx_radix ctx)) 10
       (length inp div 2) (length inp - length inp div 2) inp"
  by (auto simp: ff1_decrypt_def feistel_decrypt_def Let_def split_beta
      ff1_decrypt_rounds_dec_loop)

lemma split_ceil: "(n + 1) div 2 + (n - (n + 1) div 2) = (n :: nat)"
  by linarith

lemma split_floor: "n div 2 + (n - n div 2) = (n :: nat)"
  by linarith

lemma ff1_F_Inr:
  assumes "ff1_F ctx P tweak b d u v i pB = Inr y" "0 < ctx_radix ctx"
  shows "length y = len_at u v i \<and> (\<forall>d \<in> set y. d < ctx_radix ctx)"
  using assms bytes_to_num_Inr
  by (auto simp: ff1_F_def ff1_round_y_def and_then_eq_Inr)

text \<open>FF3 and FF3-1: output, inversion and success of the two loops.\<close>

lemma ff3_feistel_output:
  assumes r: "0 < ctx_radix ctx" and len: "u + v = length inp" and n: "2 \<le> n" "even n"
    and run: "feistel_encrypt (ff3_F clog2 ctx Tl Tr u v) (add_digits (ctx_radix ctx) 0) n u v inp
              = Inr out"
  shows "length out = length inp \<and> (\<forall>d \<in> set out. d < ctx_radix ctx)"
proof (rule feistel_output [OF _ _ _ len n run])
  show "\<And>i pB y. ff3_F clog2 ctx Tl Tr u v i pB = Inr y \<Longrightarrow> length y = len_at u v i"
    using ff3_F_Inr [OF _ r] by blast
  show "\<And>a y. length y = length a \<Longrightarrow> length (add_digits (ctx_radix ctx) 0 a y) = length a"
    by simp
  show "\<And>a y. \<forall>d \<in> set (add_digits (ctx_radix ctx) 0 a y). d < ctx_radix ctx"
    using add_digits_less [OF r] by blast
qed

lemma ff3_feistel_roundtrip:
  assumes r: "0 < ctx_radix ctx" and len: "u + v = length inp" and n: "even n"
    and digits: "\<forall>d \<in> set inp. d < ctx_radix ctx"
    and run: "feistel_encrypt (ff3_F clog2 ctx Tl Tr u v) (add_digits (ctx_radix ctx) 0) n u v inp
              = Inr out"
  shows "feistel_decrypt (ff3_F clog2 ctx Tl Tr u v) (sub_digits (ctx_radix ctx) 0) n u v out
         = Inr inp"
proof (rule feistel_roundtrip [OF _ _ _ len digits n run])
  show "\<And>i pB y. ff3_F clog2 ctx Tl Tr u v i pB = Inr y \<Longrightarrow>
          length y = len_at u v i \<and> (\<forall>d \<in> set y. d < ctx_radix ctx)"
    using ff3_F_Inr [OF _ r] by blast
  show "\<And>a y. length y = length a \<Longrightarrow>
          length (add_digits (ctx_radix ctx) 0 a y) = length a \<and>
          (\<forall>d \<in> set (add_digits (ctx_radix ctx) 0 a y). d < ctx_radix ctx)"
    using add_digits_shape [OF r] by blast
  show "\<And>a y. length y = length a \<Longrightarrow> \<forall>d \<in> set a. d < ctx_radix ctx \<Longrightarrow>
          \<forall>d \<in> set y. d < ctx_radix ctx \<Longrightarrow>
          sub_digits (ctx_radix ctx) 0 (add_digits (ctx_radix ctx) 0 a y) y = a"
    by (rule ff3_sub_add)
qed

lemma ff3_feistel_encrypt_total:
  assumes "cipher_ok ctx" "0 < ctx_radix ctx" "u + v = length inp"
  shows "\<exists>out. feistel_encrypt (ff3_F clog2 ctx Tl Tr u v) (add_digits (ctx_radix ctx) 0) n u v inp
           = Inr out"
proof (rule feistel_encrypt_total [OF _ _ assms(3)])
  show "\<And>i pB. length pB = len_at u v (Suc i) \<Longrightarrow>
          \<exists>y. ff3_F clog2 ctx Tl Tr u v i pB = Inr y \<and> length y = len_at u v i"
    using ff3_F_total [OF assms(1,2)] by blast
  show "\<And>a y. length y = length a \<Longrightarrow> length (add_digits (ctx_radix ctx) 0 a y) = length a"
    by simp
qed

lemma ff3_feistel_decrypt_total:
  assumes "cipher_ok ctx" "0 < ctx_radix ctx" "u + v = length inp" "even n"
  shows "\<exists>out. feistel_decrypt (ff3_F clog2 ctx Tl Tr u v) (sub_digits (ctx_radix ctx) 0) n u v inp
           = Inr out"
proof (rule feistel_decrypt_total [OF _ _ assms(3,4)])
  show "\<And>i pB. length pB = len_at u v (Suc i) \<Longrightarrow>
          \<exists>y. ff3_F clog2 ctx Tl Tr u v i pB = Inr y \<and> length y = len_at u v i"
    using ff3_F_total [OF assms(1,2)] by blast
  show "\<And>a y. length y = length a \<Longrightarrow> length (sub_digits (ctx_radix ctx) 0 a y) = length a"
    by simp
qed

text \<open>FF1: output and inversion.\<close>

lemma ff1_feistel_output:
  assumes r: "0 < ctx_radix ctx" and len: "u + v = length inp" and n: "2 \<le> n" "even n"
    and run: "feistel_encrypt (ff1_F ctx P tweak b d u v) (ff1_add (ctx_radix ctx)) n u v inp
              = Inr out"
  shows "length out = length inp \<and> (\<forall>d \<in> set out. d < ctx_radix ctx)"
proof (rule feistel_output [OF _ _ _ len n run])
  show "\<And>i pB y. ff1_F ctx P tweak b d u v i pB = Inr y \<Longrightarrow> length y = len_at u v i"
    using ff1_F_Inr [OF _ r] by blast
  show "\<And>a y. length y = length a \<Longrightarrow> length (ff1_add (ctx_radix ctx) a y) = length a"
    by (simp add: ff1_add_def)
  show "\<And>a y. \<forall>d \<in> set (ff1_add (ctx_radix ctx) a y). d < ctx_radix ctx"
    using add_digits_less [OF r] by (auto simp: ff1_add_def)
qed

lemma ff1_feistel_roundtrip:
  assumes r: "0 < ctx_radix ctx" and len: "u + v = length inp" and n: "even n"
    and digits: "\<forall>d \<in> set inp. d < ctx_radix ctx"
    and run: "feistel_encrypt (ff1_F ctx P tweak b d u v) (ff1_add (ctx_radix ctx)) n u v inp
              = Inr out"
  shows "feistel_decrypt (ff1_F ctx P tweak b d u v) (ff1_sub (ctx_radix ctx)) n u v out
         = Inr inp"
proof (rule feistel_roundtrip [OF _ _ _ len digits n run])
  show "\<And>i pB y. ff1_F ctx P tweak b d u v i pB = Inr y \<Longrightarrow>
          length y = len_at u v i \<and> (\<forall>d \<in> set y. d < ctx_radix ctx)"
    using ff1_F_Inr [OF _ r] by blast
  show "\<And>a y. length y = length a \<Longrightarrow>
          length (ff1_add (ctx_radix ctx) a y) = length a \<and>
          (\<forall>d \<in> set (ff1_add (ctx_radix ctx) a y). d < ctx_radix ctx)"
    using ff1_add_shape [OF r] by blast
  show "\<And>a y. length y = length a \<Longrightarrow> \<forall>d \<in> set a. d < ctx_radix ctx \<Longrightarrow>
          \<forall>d \<in> set y. d < ctx_radix ctx \<Longrightarrow>
          ff1_sub (ctx_radix ctx) (ff1_add (ctx_radix ctx) a y) y = a"
    by (rule ff1_sub_add)
qed

text \<open>The argument checks, read off a successful call.\<close>

lemma ff3_encrypt_args:
  "ff3_encrypt clog2 ctx inp tweak = Inr out \<Longrightarrow>
   2 \<le> length inp \<and> length inp \<le> 256 \<and> (length tweak = 0 \<or> length tweak = 7 \<or> length tweak = 8)"
  by (auto simp: ff3_encrypt_def Let_def split: if_splits)

lemma ff3_1_encrypt_args:
  "ff3_1_encrypt clog2 ctx inp tweak = Inr out \<Longrightarrow>
   2 \<le> length inp \<and> length inp \<le> 256 \<and> (length tweak = 0 \<or> length tweak = 7 \<or> length tweak = 8)"
  by (auto simp: ff3_1_encrypt_def Let_def split: if_splits)

lemma ff1_encrypt_args:
  "ff1_encrypt clog2 ctx inp tweak = Inr out \<Longrightarrow> 2 \<le> length inp \<and> length inp \<le> 256"
  by (auto simp: ff1_encrypt_def Let_def split: if_splits)

text \<open>The three engines: output and inversion.\<close>

lemma ff3_encrypt_Inr:
  assumes run: "ff3_encrypt clog2 ctx inp tweak = Inr out" and r: "0 < ctx_radix ctx"
  shows "length out = length inp \<and> (\<forall>d \<in> set out. d < ctx_radix ctx)"
proof -
  from ff3_encrypt_args [OF run]
  have a: "2 \<le> length inp" "length inp \<le> 256"
    "length tweak = 0 \<or> length tweak = 7 \<or> length tweak = 8" by simp_all
  show ?thesis
    by (rule ff3_feistel_output [OF r split_ceil _ _ run [unfolded ff3_encrypt_feistel [OF a]]])
      simp_all
qed

lemma ff3_1_encrypt_Inr:
  assumes run: "ff3_1_encrypt clog2 ctx inp tweak = Inr out" and r: "0 < ctx_radix ctx"
  shows "length out = length inp \<and> (\<forall>d \<in> set out. d < ctx_radix ctx)"
proof -
  from ff3_1_encrypt_args [OF run]
  have a: "2 \<le> length inp" "length inp \<le> 256"
    "length tweak = 0 \<or> length tweak = 7 \<or> length tweak = 8" by simp_all
  show ?thesis
    by (rule ff3_feistel_output [OF r split_ceil _ _ run [unfolded ff3_1_encrypt_feistel [OF a]]])
      simp_all
qed

lemma ff1_encrypt_Inr:
  assumes run: "ff1_encrypt clog2 ctx inp tweak = Inr out" and r: "0 < ctx_radix ctx"
  shows "length out = length inp \<and> (\<forall>d \<in> set out. d < ctx_radix ctx)"
proof -
  from ff1_encrypt_args [OF run]
  have a: "2 \<le> length inp" "length inp \<le> 256" by simp_all
  show ?thesis
    by (rule ff1_feistel_output [OF r split_floor _ _ run [unfolded ff1_encrypt_feistel [OF a]]])
      simp_all
qed

lemma ff3_roundtrip:
  assumes run: "ff3_encrypt clog2 ctx inp tweak = Inr out" and r: "0 < ctx_radix ctx"
    and digits: "\<forall>d \<in> set inp. d < ctx_radix ctx"
  shows "ff3_decrypt clog2 ctx out tweak = Inr inp"
proof -
  from ff3_encrypt_args [OF run]
  have a: "2 \<le> length inp" "length inp \<le> 256"
    "length tweak = 0 \<or> length tweak = 7 \<or> length tweak = 8" by simp_all
  have l: "length out = length inp" using ff3_encrypt_Inr [OF run r] by simp
  have a': "2 \<le> length out" "length out \<le> 256" using a l by simp_all
  show ?thesis
    unfolding ff3_decrypt_feistel [OF a' a(3)] l
    by (rule ff3_feistel_roundtrip [OF r split_ceil _ digits run [unfolded ff3_encrypt_feistel [OF a]]])
      simp
qed

lemma ff3_1_roundtrip:
  assumes run: "ff3_1_encrypt clog2 ctx inp tweak = Inr out" and r: "0 < ctx_radix ctx"
    and digits: "\<forall>d \<in> set inp. d < ctx_radix ctx"
  shows "ff3_1_decrypt clog2 ctx out tweak = Inr inp"
proof -
  from ff3_1_encrypt_args [OF run]
  have a: "2 \<le> length inp" "length inp \<le> 256"
    "length tweak = 0 \<or> length tweak = 7 \<or> length tweak = 8" by simp_all
  have l: "length out = length inp" using ff3_1_encrypt_Inr [OF run r] by simp
  have a': "2 \<le> length out" "length out \<le> 256" using a l by simp_all
  show ?thesis
    unfolding ff3_1_decrypt_feistel [OF a' a(3)] l
    by (rule ff3_feistel_roundtrip [OF r split_ceil _ digits run [unfolded ff3_1_encrypt_feistel [OF a]]])
      simp
qed

lemma ff1_roundtrip:
  assumes run: "ff1_encrypt clog2 ctx inp tweak = Inr out" and r: "0 < ctx_radix ctx"
    and digits: "\<forall>d \<in> set inp. d < ctx_radix ctx"
  shows "ff1_decrypt clog2 ctx out tweak = Inr inp"
proof -
  from ff1_encrypt_args [OF run]
  have a: "2 \<le> length inp" "length inp \<le> 256" by simp_all
  have l: "length out = length inp" using ff1_encrypt_Inr [OF run r] by simp
  have a': "2 \<le> length out" "length out \<le> 256" using a l by simp_all
  show ?thesis
    unfolding ff1_decrypt_feistel [OF a'] l
    by (rule ff1_feistel_roundtrip [OF r split_floor _ digits run [unfolded ff1_encrypt_feistel [OF a]]])
      simp
qed

text \<open>FF1: the round function returns when the arrays are large enough.\<close>

lemma buf_write_Inr [simp]:
  "length buf + length src \<le> cap \<Longrightarrow> buf_write cap buf src = Inr (buf @ src)"
  by (simp add: buf_write_def)

lemma buf_write_eq_Inr:
  "buf_write cap buf src = Inr out \<longleftrightarrow> length buf + length src \<le> cap \<and> out = buf @ src"
  by (auto simp: buf_write_def)

lemma length_num_to_bytes [simp]: "length (num_to_bytes x radix w) = w"
  by (simp add: num_to_bytes_def)

lemma ff1_Q_total:
  assumes "length tweak + ff1_padding_len (length tweak) b + 1 + b \<le> 256"
  shows "\<exists>Q. ff1_Q tweak b i pB radix = Inr Q"
proof -
  let ?pad = "replicate (ff1_padding_len (length tweak) b) (0 :: byte)"
  have Q1: "(if 0 < length tweak then buf_write 256 [] tweak else Inr []) = Inr tweak"
    using assms by (cases tweak) simp_all
  have Q2: "buf_write 256 tweak ?pad = Inr (tweak @ ?pad)"
    using assms by (intro buf_write_Inr) simp
  have Q3: "buf_write 256 (tweak @ ?pad) [uchar i] = Inr (tweak @ ?pad @ [uchar i])"
    using assms by (simp add: buf_write_def)
  have Q4: "buf_write 256 (tweak @ ?pad @ [uchar i]) (replicate b 0)
            = Inr ((tweak @ ?pad @ [uchar i]) @ replicate b 0)"
    using assms by (intro buf_write_Inr) simp
  have B: "buf_write 256 [] (num_to_bytes pB radix b) = Inr (num_to_bytes pB radix b)"
    using assms by (simp add: buf_write_def)
  have Q5: "buf_write 256 (tweak @ ?pad @ [uchar i]) (num_to_bytes pB radix b)
            = Inr ((tweak @ ?pad @ [uchar i]) @ num_to_bytes pB radix b)"
    using assms by (intro buf_write_Inr) simp
  show ?thesis
    unfolding ff1_Q_def by (simp only: Q1 Q2 Q3 Q4 B Q5 and_then_Inr) simp
qed

lemma ff1_cbc_mac_total:
  "\<forall>block. E block \<noteq> None \<Longrightarrow> \<exists>R'. ff1_cbc_mac E R Qs = Inr R' \<and> (Qs \<noteq> [] \<longrightarrow> length R' = 16)"
proof (induction Qs arbitrary: R)
  case Nil
  show ?case by simp
next
  case (Cons Qi Qs)
  from EVP_EncryptUpdate_total [OF Cons.prems]
  obtain R1 where R1: "EVP_EncryptUpdate E (map2 (XOR) Qi R) = Some R1" by blast
  from Cons.IH [OF Cons.prems, of R1] obtain R' where
    R': "ff1_cbc_mac E R1 Qs = Inr R'" "Qs \<noteq> [] \<longrightarrow> length R' = 16" by blast
  have "length R' = 16"
  proof (cases Qs)
    case Nil
    then show ?thesis using R'(1) EVP_EncryptUpdate_length [OF R1] by simp
  next
    case (Cons a list)
    then show ?thesis using R'(2) by simp
  qed
  then show ?case using R1 R'(1) by simp
qed

lemma ff1_prf_extend_total:
  "\<forall>block. E block \<noteq> None \<Longrightarrow> length S + 16 * n \<le> S_size \<Longrightarrow>
   \<exists>S'. ff1_prf_extend E R S_len num_extra_blocks S_size n j S = Inr S'"
proof (induction n arbitrary: j S)
  case 0
  show ?case by simp
next
  case (Suc n)
  let ?tmp = "map2 (XOR)
                  (replicate 12 0 @
                   [uchar (drop_bit 24 j AND 255), uchar (drop_bit 16 j AND 255),
                    uchar (drop_bit 8 j AND 255), uchar (j AND 255)]) R"
  from EVP_EncryptUpdate_total [OF Suc.prems(1)]
  obtain SS where SS: "EVP_EncryptUpdate E ?tmp = Some SS" by blast
  let ?copy_len = "if j = num_extra_blocks then S_len - j * 16 else 16"
  have l: "length (take ?copy_len SS) \<le> 16"
    using EVP_EncryptUpdate_length [OF SS] by simp
  then have w: "buf_write S_size S (take ?copy_len SS) = Inr (S @ take ?copy_len SS)"
    using Suc.prems(2) by (intro buf_write_Inr) simp
  have "length (S @ take ?copy_len SS) + 16 * n \<le> S_size"
    using l Suc.prems(2) by simp
  from Suc.IH [OF Suc.prems(1) this, of "j + 1"] SS w show ?case
    by (simp add: Let_def)
qed

lemma ff1_prf_extend_length:
  "ff1_prf_extend E R S_len num_extra_blocks S_size n j S = Inr S' \<Longrightarrow> length S \<le> S_size \<Longrightarrow>
   length S' \<le> S_size"
proof (induction n arbitrary: j S)
  case 0
  then show ?case by simp
next
  case (Suc n)
  from Suc.prems(1) obtain SS S1 where
    w: "buf_write S_size S
          (take (if j = num_extra_blocks then S_len - j * 16 else 16) SS) = Inr S1"
    and rest: "ff1_prf_extend E R S_len num_extra_blocks S_size n (j + 1) S1 = Inr S'"
    by (auto simp: Let_def and_then_eq_Inr split: option.splits)
  from w have "length S1 \<le> S_size" by (auto simp: buf_write_eq_Inr)
  from Suc.IH [OF rest this] show ?case .
qed

lemma ceildiv_16_le: "d \<le> 256 \<Longrightarrow> ceildiv d 16 \<le> 16"
  by (simp add: ceildiv_def)

lemma ff1_prf_total:
  assumes ok: "cipher_ok ctx" and P: "length P = 16" and d: "d \<le> 256"
  shows "\<exists>S. ff1_prf ctx P Q d 256 = Inr S \<and> length S \<le> 256"
proof -
  from ok obtain E where E: "cipher_ctx ctx = Some E" "\<forall>block. E block \<noteq> None"
    by (auto simp: cipher_ok_def)
  from EVP_EncryptUpdate_total [OF E(2)] obtain R0 where R0: "EVP_EncryptUpdate E P = Some R0"
    by blast
  from ff1_cbc_mac_total [OF E(2)] obtain R where
    R: "ff1_cbc_mac E R0 (map (\<lambda>i. take 16 (drop (i * 16) Q)) [0..<length Q div 16]) = Inr R"
      "map (\<lambda>i. take 16 (drop (i * 16) Q)) [0..<length Q div 16] \<noteq> [] \<longrightarrow> length R = 16"
    by blast
  have lR: "length R = 16"
  proof (cases "map (\<lambda>i. take 16 (drop (i * 16) Q)) [0..<length Q div 16] = []")
    case True
    then show ?thesis using R(1) EVP_EncryptUpdate_length [OF R0] by simp
  next
    case False
    then show ?thesis using R(2) by simp
  qed
  show ?thesis
  proof (cases "d \<le> 16")
    case True
    then show ?thesis using E(1) P R0 R(1) lR by (simp add: ff1_prf_def)
  next
    case False
    have "length R + 16 * (ceildiv d 16 - 1) \<le> 256"
      using ceildiv_16_le [OF d] lR by simp
    from ff1_prf_extend_total [OF E(2) this]
    obtain S where S: "ff1_prf_extend E R d (ceildiv d 16 - 1) 256 (ceildiv d 16 - 1) 1 R = Inr S"
      by blast
    have "length S \<le> 256"
      using ff1_prf_extend_length [OF S] lR by simp
    then show ?thesis using False E(1) P R0 R(1) lR S by (simp add: ff1_prf_def)
  qed
qed


lemma ff1_Q_overrun:
  assumes "256 < length tweak + ff1_padding_len (length tweak) b + 1 + b"
  shows "ff1_Q tweak b i pB radix = Inl OutOfBounds"
proof -
  let ?pad = "replicate (ff1_padding_len (length tweak) b) (0 :: byte)"
  show ?thesis
  proof (cases "length tweak \<le> 256")
    case False
    then have "tweak \<noteq> []" by auto
    with False show ?thesis by (simp add: ff1_Q_def buf_write_def)
  next
    case t: True
    then have Q1: "(if 0 < length tweak then buf_write 256 [] tweak else Inr []) = Inr tweak"
      by (cases tweak) simp_all
    show ?thesis
    proof (cases "length tweak + length ?pad \<le> 256")
      case False
      then show ?thesis unfolding ff1_Q_def Q1 by (simp add: buf_write_def)
    next
      case p: True
      then have Q2: "buf_write 256 tweak ?pad = Inr (tweak @ ?pad)" by simp
      show ?thesis
      proof (cases "length tweak + length ?pad + 1 \<le> 256")
        case False
        then show ?thesis unfolding ff1_Q_def Q1 by (simp add: Q2) (simp add: buf_write_def)
      next
        case True
        then have Q3: "buf_write 256 (tweak @ ?pad) [uchar i] = Inr (tweak @ ?pad @ [uchar i])"
          by (simp add: buf_write_def)
        have Q4: "buf_write 256 (tweak @ ?pad @ [uchar i]) (replicate b 0) = Inl OutOfBounds"
          using assms by (simp add: buf_write_def)
        show ?thesis unfolding ff1_Q_def Q1 by (simp add: Q2 Q3 Q4)
      qed
    qed
  qed
qed

lemma ff1_F_total:
  assumes ok: "cipher_ok ctx" and r: "0 < ctx_radix ctx" and P: "length P = 16"
    and Q: "length tweak + ff1_padding_len (length tweak) b + 1 + b \<le> 256"
    and d: "d \<le> 256"
  shows "\<exists>y. ff1_F ctx P tweak b d u v i pB = Inr y \<and> length y = len_at u v i"
proof -
  from ff1_Q_total [OF Q] obtain Qb where Qb: "ff1_Q tweak b i pB (ctx_radix ctx) = Inr Qb"
    by blast
  from ff1_prf_total [OF ok P d] obtain S where
    S: "ff1_prf ctx P Qb d 256 = Inr S" "length S \<le> 256" by blast
  have yb: "buf_write 256 [] (take d S) = Inr (take d S)"
    using S(2) by (simp add: buf_write_def)
  have "length (take d S) \<le> 256" using S(2) by simp
  from bytes_to_num_total [OF this r] obtain y where
    y: "bytes_to_num (take d S) (len_at u v i) (ctx_radix ctx) = Inr y" by blast
  from bytes_to_num_Inr(1) [OF y r] y Qb S(1) yb show ?thesis
    by (simp add: ff1_F_def ff1_round_y_def)
qed

lemma length_ff1_P [simp]: "length (ff1_P radix u len tweak_len) = 16"
  by (simp add: ff1_P_def)

lemma ff1_feistel_encrypt_total:
  assumes "cipher_ok ctx" "0 < ctx_radix ctx" "length P = 16"
    "length tweak + ff1_padding_len (length tweak) b + 1 + b \<le> 256" "d \<le> 256"
    "u + v = length inp"
  shows "\<exists>out. feistel_encrypt (ff1_F ctx P tweak b d u v) (ff1_add (ctx_radix ctx)) n u v inp
           = Inr out"
proof (rule feistel_encrypt_total [OF _ _ assms(6)])
  show "\<And>i pB. length pB = len_at u v (Suc i) \<Longrightarrow>
          \<exists>y. ff1_F ctx P tweak b d u v i pB = Inr y \<and> length y = len_at u v i"
    using ff1_F_total [OF assms(1-5)] by blast
  show "\<And>a y. length y = length a \<Longrightarrow> length (ff1_add (ctx_radix ctx) a y) = length a"
    by (simp add: ff1_add_def)
qed

lemma ff1_feistel_decrypt_total:
  assumes "cipher_ok ctx" "0 < ctx_radix ctx" "length P = 16"
    "length tweak + ff1_padding_len (length tweak) b + 1 + b \<le> 256" "d \<le> 256"
    "u + v = length inp" "even n"
  shows "\<exists>out. feistel_decrypt (ff1_F ctx P tweak b d u v) (ff1_sub (ctx_radix ctx)) n u v inp
           = Inr out"
proof (rule feistel_decrypt_total [OF _ _ assms(6,7)])
  show "\<And>i pB. length pB = len_at u v (Suc i) \<Longrightarrow>
          \<exists>y. ff1_F ctx P tweak b d u v i pB = Inr y \<and> length y = len_at u v i"
    using ff1_F_total [OF assms(1-5)] by blast
  show "\<And>a y. length y = length a \<Longrightarrow> length (ff1_sub (ctx_radix ctx) a y) = length a"
    by (simp add: ff1_sub_def)
qed

text \<open>The engines return: FF3 and FF3-1 always, FF1 when its arrays are large enough.\<close>

lemma ff3_encrypt_total:
  assumes "cipher_ok ctx" "0 < ctx_radix ctx" "2 \<le> length inp" "length inp \<le> 256"
    "length tweak = 0 \<or> length tweak = 7 \<or> length tweak = 8"
  shows "\<exists>out. ff3_encrypt clog2 ctx inp tweak = Inr out"
  unfolding ff3_encrypt_feistel [OF assms(3-5)]
  by (rule ff3_feistel_encrypt_total [OF assms(1,2) split_ceil])

lemma ff3_decrypt_total:
  assumes "cipher_ok ctx" "0 < ctx_radix ctx" "2 \<le> length inp" "length inp \<le> 256"
    "length tweak = 0 \<or> length tweak = 7 \<or> length tweak = 8"
  shows "\<exists>out. ff3_decrypt clog2 ctx inp tweak = Inr out"
  unfolding ff3_decrypt_feistel [OF assms(3-5)]
  by (rule ff3_feistel_decrypt_total [OF assms(1,2) split_ceil]) simp

lemma ff3_1_encrypt_total:
  assumes "cipher_ok ctx" "0 < ctx_radix ctx" "2 \<le> length inp" "length inp \<le> 256"
    "length tweak = 0 \<or> length tweak = 7 \<or> length tweak = 8"
  shows "\<exists>out. ff3_1_encrypt clog2 ctx inp tweak = Inr out"
  unfolding ff3_1_encrypt_feistel [OF assms(3-5)]
  by (rule ff3_feistel_encrypt_total [OF assms(1,2) split_ceil])

lemma ff3_1_decrypt_total:
  assumes "cipher_ok ctx" "0 < ctx_radix ctx" "2 \<le> length inp" "length inp \<le> 256"
    "length tweak = 0 \<or> length tweak = 7 \<or> length tweak = 8"
  shows "\<exists>out. ff3_1_decrypt clog2 ctx inp tweak = Inr out"
  unfolding ff3_1_decrypt_feistel [OF assms(3-5)]
  by (rule ff3_feistel_decrypt_total [OF assms(1,2) split_ceil]) simp

lemma ff1_encrypt_total:
  assumes "cipher_ok ctx" "0 < ctx_radix ctx" "2 \<le> length inp" "length inp \<le> 256"
    "ff1_fits clog2 (ctx_radix ctx) (length inp) (length tweak)"
  shows "\<exists>out. ff1_encrypt clog2 ctx inp tweak = Inr out"
  unfolding ff1_encrypt_feistel [OF assms(3,4)]
  using assms(5)
  by (intro ff1_feistel_encrypt_total [OF assms(1,2) _ _ _ split_floor])
    (simp_all add: ff1_fits_def Let_def)

lemma ff1_decrypt_total:
  assumes "cipher_ok ctx" "0 < ctx_radix ctx" "2 \<le> length inp" "length inp \<le> 256"
    "ff1_fits clog2 (ctx_radix ctx) (length inp) (length tweak)"
  shows "\<exists>out. ff1_decrypt clog2 ctx inp tweak = Inr out"
  unfolding ff1_decrypt_feistel [OF assms(3,4)]
  using assms(5)
  by (intro ff1_feistel_decrypt_total [OF assms(1,2) _ _ _ split_floor])
    (simp_all add: ff1_fits_def Let_def)

lemma ff1_encrypt_overrun:
  assumes "2 \<le> length inp" "length inp \<le> 256"
    and "256 < length tweak
           + ff1_padding_len (length tweak)
               (ceildiv (clog2 (length inp - length inp div 2) (ctx_radix ctx)) 8)
           + 1 + ceildiv (clog2 (length inp - length inp div 2) (ctx_radix ctx)) 8"
  shows "ff1_encrypt clog2 ctx inp tweak = Inl OutOfBounds"
  using assms(1,2) ff1_Q_overrun [OF assms(3)]
  by (simp add: ff1_encrypt_def Let_def ff1_round_y_def numeral_eq_Suc)

lemma ff1_decrypt_overrun:
  assumes "2 \<le> length inp" "length inp \<le> 256"
    and "256 < length tweak
           + ff1_padding_len (length tweak)
               (ceildiv (clog2 (length inp - length inp div 2) (ctx_radix ctx)) 8)
           + 1 + ceildiv (clog2 (length inp - length inp div 2) (ctx_radix ctx)) 8"
  shows "ff1_decrypt clog2 ctx inp tweak = Inl OutOfBounds"
  using assms(1,2) ff1_Q_overrun [OF assms(3)]
  by (simp add: ff1_decrypt_def Let_def ff1_round_y_def numeral_eq_Suc)

section \<open>Lemmas about the context\<close>

lemma FPE_CTX_init_success:
  assumes "FPE_CTX_init openssl ctx0 mode algo key bits radix = (0, ctx)"
  shows "2 \<le> radix" and "radix \<le> 65536" and "ctx_radix ctx = radix" and "ctx_mode ctx = mode"
    and "ctx_key ctx = memcpy (ctx_key ctx0) key (bits div 8)"
    and "bits = 128 \<or> bits = 192 \<or> bits = 256"
  using assms
  by (auto simp: FPE_CTX_init_def fpe_validate_radix_def Let_def
      split: if_splits evp_outcome.splits)

lemma FPE_CTX_init_cipher:
  assumes "FPE_CTX_init openssl ctx0 mode algo key bits radix = (0, ctx)"
    and "mode = FPE_MODE_FF1 \<or> mode = FPE_MODE_FF3 \<or> mode = FPE_MODE_FF3_1"
  shows "\<exists>E. cipher_ctx ctx = Some E"
  using assms
  by (auto simp: FPE_CTX_init_def fpe_validate_radix_def Let_def
      split: if_splits evp_outcome.splits)

lemma FPE_encrypt_mode:
  "FPE_encrypt clog2 ctx inp tweak = Inr out \<Longrightarrow>
   ctx_mode ctx = FPE_MODE_FF1 \<and> ff1_encrypt clog2 ctx inp tweak = Inr out
   \<or> ctx_mode ctx = FPE_MODE_FF3 \<and> ff3_encrypt clog2 ctx inp tweak = Inr out
   \<or> ctx_mode ctx = FPE_MODE_FF3_1 \<and> ff3_1_encrypt clog2 ctx inp tweak = Inr out"
  by (auto simp: FPE_encrypt_def split: if_splits)

lemma FPE_encrypt_Inr:
  assumes run: "FPE_encrypt clog2 ctx inp tweak = Inr out" and r: "0 < ctx_radix ctx"
  shows "length out = length inp \<and> (\<forall>d \<in> set out. d < ctx_radix ctx)"
  using FPE_encrypt_mode [OF run] ff1_encrypt_Inr [OF _ r] ff3_encrypt_Inr [OF _ r]
    ff3_1_encrypt_Inr [OF _ r]
  by blast

lemma fpe_validate_tweak_ff3:
  "fpe_validate_tweak FPE_MODE_FF3 n = 0 \<longleftrightarrow> n = 0 \<or> n = 7 \<or> n = 8"
  "fpe_validate_tweak FPE_MODE_FF3_1 n = 0 \<longleftrightarrow> n = 0 \<or> n = 7 \<or> n = 8"
  "fpe_validate_tweak FPE_MODE_FF1 n = 0"
  by (auto simp: fpe_validate_tweak_def)

lemma FPE_roundtrip_ctx:
  assumes run: "FPE_encrypt clog2 ctx inp tweak = Inr out" and r: "0 < ctx_radix ctx"
    and digits: "\<forall>d \<in> set inp. d < ctx_radix ctx"
  shows "FPE_decrypt clog2 ctx out tweak = Inr inp"
proof -
  have tw: "fpe_validate_tweak (ctx_mode ctx) (length tweak) = 0"
    using run by (auto simp: FPE_encrypt_def split: if_splits)
  from FPE_encrypt_mode [OF run] show ?thesis
  proof (elim disjE conjE)
    assume "ctx_mode ctx = FPE_MODE_FF1" "ff1_encrypt clog2 ctx inp tweak = Inr out"
    then show ?thesis using ff1_roundtrip [OF _ r digits] tw by (simp add: FPE_decrypt_def)
  next
    assume "ctx_mode ctx = FPE_MODE_FF3" "ff3_encrypt clog2 ctx inp tweak = Inr out"
    then show ?thesis using ff3_roundtrip [OF _ r digits] tw by (simp add: FPE_decrypt_def)
  next
    assume "ctx_mode ctx = FPE_MODE_FF3_1" "ff3_1_encrypt clog2 ctx inp tweak = Inr out"
    then show ?thesis using ff3_1_roundtrip [OF _ r digits] tw by (simp add: FPE_decrypt_def)
  qed
qed

lemma FPE_encrypt_total:
  assumes ok: "cipher_ok ctx" and r: "0 < ctx_radix ctx"
    and len: "2 \<le> length inp" "length inp \<le> 256"
    and tw: "fpe_validate_tweak (ctx_mode ctx) (length tweak) = 0"
    and fits: "ctx_mode ctx = FPE_MODE_FF1 \<longrightarrow>
               ff1_fits clog2 (ctx_radix ctx) (length inp) (length tweak)"
  shows "\<exists>out. FPE_encrypt clog2 ctx inp tweak = Inr out"
proof -
  from tw have "ctx_mode ctx = FPE_MODE_FF1 \<or> ctx_mode ctx = FPE_MODE_FF3
      \<or> ctx_mode ctx = FPE_MODE_FF3_1"
    by (auto simp: fpe_validate_tweak_def split: if_splits)
  then show ?thesis
  proof (elim disjE)
    assume m: "ctx_mode ctx = FPE_MODE_FF1"
    with fits ff1_encrypt_total [OF ok r len] tw show ?thesis by (simp add: FPE_encrypt_def)
  next
    assume m: "ctx_mode ctx = FPE_MODE_FF3"
    with tw have "length tweak = 0 \<or> length tweak = 7 \<or> length tweak = 8"
      by (simp add: fpe_validate_tweak_ff3)
    from ff3_encrypt_total [OF ok r len this] m tw show ?thesis by (simp add: FPE_encrypt_def)
  next
    assume m: "ctx_mode ctx = FPE_MODE_FF3_1"
    with tw have "length tweak = 0 \<or> length tweak = 7 \<or> length tweak = 8"
      by (simp add: fpe_validate_tweak_ff3)
    from ff3_1_encrypt_total [OF ok r len this] m tw show ?thesis by (simp add: FPE_encrypt_def)
  qed
qed

lemma FPE_decrypt_total:
  assumes ok: "cipher_ok ctx" and r: "0 < ctx_radix ctx"
    and len: "2 \<le> length inp" "length inp \<le> 256"
    and tw: "fpe_validate_tweak (ctx_mode ctx) (length tweak) = 0"
    and fits: "ctx_mode ctx = FPE_MODE_FF1 \<longrightarrow>
               ff1_fits clog2 (ctx_radix ctx) (length inp) (length tweak)"
  shows "\<exists>out. FPE_decrypt clog2 ctx inp tweak = Inr out"
proof -
  from tw have "ctx_mode ctx = FPE_MODE_FF1 \<or> ctx_mode ctx = FPE_MODE_FF3
      \<or> ctx_mode ctx = FPE_MODE_FF3_1"
    by (auto simp: fpe_validate_tweak_def split: if_splits)
  then show ?thesis
  proof (elim disjE)
    assume m: "ctx_mode ctx = FPE_MODE_FF1"
    with fits ff1_decrypt_total [OF ok r len] tw show ?thesis by (simp add: FPE_decrypt_def)
  next
    assume m: "ctx_mode ctx = FPE_MODE_FF3"
    with tw have "length tweak = 0 \<or> length tweak = 7 \<or> length tweak = 8"
      by (simp add: fpe_validate_tweak_ff3)
    from ff3_decrypt_total [OF ok r len this] m tw show ?thesis by (simp add: FPE_decrypt_def)
  next
    assume m: "ctx_mode ctx = FPE_MODE_FF3_1"
    with tw have "length tweak = 0 \<or> length tweak = 7 \<or> length tweak = 8"
      by (simp add: fpe_validate_tweak_ff3)
    from ff3_1_decrypt_total [OF ok r len this] m tw show ?thesis by (simp add: FPE_decrypt_def)
  qed
qed

lemma fpe_reverse_key_rev: "n \<le> length key \<Longrightarrow> fpe_reverse_key key n = rev (take n key)"
  by (rule nth_equalityI) (simp_all add: fpe_reverse_key_def rev_nth)

lemma FPE_CTX_init_config:
  assumes "FPE_CTX_init openssl ctx0 mode algo key bits radix = (0, ctx)"
  shows "ctx_algo ctx = algo" and "ctx_key_bits ctx = bits" and "ctx_key_len ctx = bits div 8"
  using assms
  by (auto simp: FPE_CTX_init_def fpe_validate_radix_def Let_def
      split: if_splits evp_outcome.splits)

lemma FPE_CTX_init_params:
  assumes "FPE_CTX_init openssl ctx0 mode algo key bits radix = (0, ctx)"
  shows "mode = FPE_MODE_FF1 \<Longrightarrow>
           params_reversed_key ctx = memcpy (params_reversed_key ctx0) (replicate 4 0) 4"
    and "mode = FPE_MODE_FF3 \<or> mode = FPE_MODE_FF3_1 \<Longrightarrow>
           params_reversed_key ctx
             = memcpy (params_reversed_key ctx0) (fpe_reverse_key key (bits div 8)) (bits div 8)"
  using assms
  by (auto simp: FPE_CTX_init_def fpe_validate_radix_def Let_def
      split: if_splits evp_outcome.splits)

section \<open>Lemmas about the examples\<close>

lemma toy_init:
  "mode = FPE_MODE_FF1 \<or> mode = FPE_MODE_FF3 \<or> mode = FPE_MODE_FF3_1 \<Longrightarrow>
   FPE_CTX_init toy_openssl FPE_CTX_new mode FPE_ALGO_AES toy_key 128 10 = (0, toy_ctx mode)"
  by (auto simp: toy_ctx_def FPE_CTX_init_def fpe_validate_radix_def toy_openssl_def Let_def)

lemma toy_ctx_radix: "ctx_radix (toy_ctx mode) = 10"
  by (simp add: toy_ctx_def FPE_CTX_init_def fpe_validate_radix_def toy_openssl_def Let_def)

lemma toy_ctx_mode: "ctx_mode (toy_ctx mode) = mode"
  by (simp add: toy_ctx_def FPE_CTX_init_def fpe_validate_radix_def toy_openssl_def Let_def)

lemma toy_ctx_cipher:
  "cipher_ctx (toy_ctx FPE_MODE_FF1) = Some (toy_cipher (take 16 toy_key))"
  "cipher_ctx (toy_ctx FPE_MODE_FF3) = Some (toy_cipher (fpe_reverse_key toy_key 16))"
  "cipher_ctx (toy_ctx FPE_MODE_FF3_1) = Some (toy_cipher (fpe_reverse_key toy_key 16))"
  by (simp_all add: toy_ctx_def FPE_CTX_init_def fpe_validate_radix_def toy_openssl_def Let_def)

lemma toy_cipher_ok:
  "cipher_ok (toy_ctx FPE_MODE_FF1)" "cipher_ok (toy_ctx FPE_MODE_FF3)"
  "cipher_ok (toy_ctx FPE_MODE_FF3_1)"
  by (simp_all add: cipher_ok_def toy_ctx_cipher toy_cipher_def)

lemma toy_init32:
  "FPE_CTX_init toy_openssl FPE_CTX_new FPE_MODE_FF3 FPE_ALGO_AES toy_key32 256 10 = (0, toy_ctx32)"
  by (simp add: toy_ctx32_def FPE_CTX_init_def fpe_validate_radix_def toy_openssl_def Let_def)

lemma toy_ctx32_key: "ctx_key toy_ctx32 = toy_key32"
  by (simp add: toy_ctx32_def FPE_CTX_init_def fpe_validate_radix_def toy_openssl_def Let_def
      memcpy_def FPE_CTX_new_def toy_key32_def)

lemma toy_ctx32_reversed_key: "params_reversed_key toy_ctx32 = rev toy_key32"
  using FPE_CTX_init_params(2) [OF toy_init32]
  by (simp add: fpe_reverse_key_rev memcpy_def toy_key32_def FPE_CTX_new_def)

section \<open>Evaluation of the examples\<close>

text \<open>
  Congruence rules that make the simplifier evaluate the bound value first, and the
  unfolding of the loops at numerals.
\<close>

lemma let_weak: "a = b \<Longrightarrow> Let a f = Let b f"
  by simp

lemma and_then_weak: "r = r' \<Longrightarrow> and_then r f = and_then r' f"
  by simp

lemma replicate_numeral: "replicate (numeral k) x = x # replicate (pred_numeral k) x"
  by (simp add: numeral_eq_Suc)

lemma ff3_encrypt_rounds_numeral:
  "ff3_encrypt_rounds clog2 ctx Tl Tr u v (numeral k) i pA pB =
     (let T = (if odd i then Tl else Tr);
          m = (if odd i then v else u)
      in and_then (ff3_round_encrypt clog2 ctx T i pB (ctx_radix ctx) 16) (\<lambda>W.
         and_then (bytes_to_num_rev W m (ctx_radix ctx)) (\<lambda>y.
           ff3_encrypt_rounds clog2 ctx Tl Tr u v (pred_numeral k) (i + 1) pB
             (add_digits (ctx_radix ctx) 0 pA y))))"
  by (simp add: numeral_eq_Suc)

lemma ff3_decrypt_rounds_numeral:
  "ff3_decrypt_rounds clog2 ctx Tl Tr u v (numeral k) pA pB =
     (let T = (if odd (pred_numeral k) then Tl else Tr);
          m = (if odd (pred_numeral k) then v else u)
      in and_then (ff3_round_encrypt clog2 ctx T (pred_numeral k) pA (ctx_radix ctx) 16) (\<lambda>W.
         and_then (bytes_to_num_rev W m (ctx_radix ctx)) (\<lambda>y.
           ff3_decrypt_rounds clog2 ctx Tl Tr u v (pred_numeral k)
             (sub_digits (ctx_radix ctx) 0 pB y) pA)))"
  by (simp add: numeral_eq_Suc)

lemma fpe_reverse_key_toy:
  "fpe_reverse_key toy_key 16
   = [0x3C, 0x4F, 0xCF, 0x09, 0x88, 0x15, 0xF7, 0xAB, 0xA6, 0xD2, 0xAE, 0x28, 0x16, 0x15, 0x7E, 0x2B]"
  by (simp add: fpe_reverse_key_def toy_key_def upt_rec)

lemma fpe_reverse_bytes_16:
  "fpe_reverse_bytes [a0, a1, a2, a3, a4, a5, a6, a7, a8, a9, a10, a11, a12, a13, a14, a15]
   = [a15, a14, a13, a12, a11, a10, a9, a8, a7, a6, a5, a4, a3, a2, a1, a0]"
  by (simp add: fpe_reverse_bytes_def upt_rec Let_def)

lemma clog2_exact_1_10: "clog2_exact (Suc 0) 10 = 4"
  by (simp add: clog2_exact_def upt_rec)

lemmas eval_ff3 =
  ff3_round_encrypt_def toy_ctx_radix toy_ctx_cipher Let_def clog2_exact_1_10 ceildiv_def
  memcpy_def num_to_bytes_rev_def horner_step_def uchar_def fpe_reverse_bytes_16
  EVP_EncryptUpdate_def toy_cipher_def fpe_reverse_key_toy bytes_to_num_rev_def
  replicate_numeral ff3_encrypt_rounds_numeral ff3_decrypt_rounds_numeral

lemma toy_ff3_1_rounds:
  "ff3_encrypt_rounds clog2_exact (toy_ctx FPE_MODE_FF3_1) [0, 0, 0, 0] [0, 0, 0, 0]
     (Suc 0) (Suc 0) 8 0 [0] [99] = Inr ([8], [9])"
  by (simp add: eval_ff3 cong: let_weak prod.case_cong_weak and_then_weak)

lemma toy_ff3_1_encrypt:
  "ff3_1_encrypt clog2_exact (toy_ctx FPE_MODE_FF3_1) [0, 99] [] = Inr [8, 9]"
  by (simp add: ff3_1_encrypt_def ff3_1_tweak_halves_def Let_def replicate_numeral
      toy_ff3_1_rounds)

lemma toy_ff3_1_dec_rounds:
  "ff3_decrypt_rounds clog2_exact (toy_ctx FPE_MODE_FF3_1) [0, 0, 0, 0] [0, 0, 0, 0]
     (Suc 0) (Suc 0) 8 [0] [99] = Inr ([0], [75])"
  by (simp add: eval_ff3 cong: let_weak prod.case_cong_weak and_then_weak)

lemma toy_ff3_1_decrypt:
  "ff3_1_decrypt clog2_exact (toy_ctx FPE_MODE_FF3_1) [0, 99] [] = Inr [0, 75]"
  by (simp add: ff3_1_decrypt_def ff3_1_tweak_halves_def Let_def replicate_numeral
      toy_ff3_1_dec_rounds)

section \<open>Lemmas about the tweak halves\<close>

lemma byte_nibbles: "(x AND 0xF0) OR (x AND 0x0F) = (x :: byte)"
proof -
  have "(x AND 0xF0) OR (x AND 0x0F) = x AND (0xF0 OR 0x0F)"
    by (rule bit.conj_disj_distrib [symmetric])
  moreover have "(0xF0 OR 0x0F :: byte) = - 1" by simp
  ultimately show ?thesis by (simp only: word_bw_same and.right_neutral)
qed

lemma low_nibble_less: "unat ((x :: byte) AND 0x0F) < 16"
proof -
  have "unat (x AND 0x0F) \<le> unat (0x0F :: byte)"
    by (rule word_and_le1 [THEN word_le_nat_alt [THEN iffD1]])
  then show ?thesis by simp
qed

section \<open>The claims\<close>

subsection \<open>The numeral codec\<close>

text \<open>
  Claim C6, as amended. For a radix in \<open>[2, 65536]\<close>, digits below the radix and a
  width \<open>w\<close> of at most 256 bytes with \<open>radix ^ m \<le> 2 ^ (8 * w)\<close>, converting a
  numeral string to \<open>w\<close> bytes and back returns it unchanged, in the natural order
  of FF1 and in the reversed order of FF3 and FF3-1. The bound on \<open>w\<close> is the size
  of the array \<open>temp\<close> into which \<open>bytes_to_num\<close> and \<open>bytes_to_num_rev\<close>
  copy their input.
\<close>

theorem codec_roundtrip:
  assumes "2 \<le> radix" and "radix \<le> 65536"
    and "\<forall>d \<in> set x. d < radix"
    and "radix ^ length x \<le> 2 ^ (8 * w)"
    and "w \<le> 256"
  shows "bytes_to_num (num_to_bytes x radix w) (length x) radix = Inr x
       \<and> bytes_to_num_rev (num_to_bytes_rev x radix w) (length x) radix = Inr x"
proof -
  have pos: "0 < radix" using assms(1) by simp
  have "(2::nat) ^ (8 * w) = 256 ^ w" by (simp add: power_mult)
  then have fit: "radix ^ length x \<le> 256 ^ w" using assms(4) by simp
  show ?thesis
    using codec_roundtrip_natural [OF pos assms(3) fit assms(5)]
      codec_roundtrip_reversed [OF pos assms(3) fit assms(5)]
    by simp
qed

theorem codec_roundtrip_witness:
  "bytes_to_num (num_to_bytes [1, 2, 3] 10 2) (length [1, 2, 3 :: nat]) 10 = Inr [1, 2, 3]
   \<and> bytes_to_num_rev (num_to_bytes_rev [1, 2, 3] 10 2) (length [1, 2, 3 :: nat]) 10 = Inr [1, 2, 3]"
  using codec_roundtrip [of 10 "[1, 2, 3]" 2] by simp

text \<open>
  Claim C6 as stated, for every width: at radix 2, the one-digit string \<open>[1]\<close> and
  \<open>w = 257\<close> the conversion back copies 257 bytes into the 256-byte array.
\<close>

theorem codec_width_counterexample:
  "(2 :: nat) \<le> 2 \<and> (2 :: nat) \<le> 65536 \<and> (1 :: nat) < 2
   \<and> (2 :: nat) ^ length [1 :: nat] \<le> 2 ^ (8 * 257)
   \<and> bytes_to_num (num_to_bytes [1] 2 257) (length [1 :: nat]) 2 = Inl OutOfBounds"
  by (simp add: bytes_to_num_def num_to_bytes_def)


subsection \<open>The block \<open>P\<close> of FF1\<close>



subsection \<open>Alphabet preservation\<close>

text \<open>
  Claim C7 fails on the code. A call of \<open>FPE_encrypt\<close> on an initialised FF1
  context, with a length in \<open>[2, 256]\<close>, every digit below the radix and a tweak the
  validation accepts, for which tweak, padding, round byte and the \<open>b\<close> bytes of
  \<open>NUM(B)\<close> together exceed 256 bytes, writes past the end of \<open>Q[256]\<close> in round 0:
  it leaves defined behaviour and the model has no ciphertext for it, in the alphabet
  or not. Radix 65536 with 256 digits and the empty tweak is such a call.
\<close>

theorem FPE_encrypt_alphabet_overrun:
  assumes init: "FPE_CTX_init openssl ctx0 FPE_MODE_FF1 algo key bits radix = (0, ctx)"
    and len: "2 \<le> length inp" "length inp \<le> 256"
    and digits: "\<forall>d \<in> set inp. d < radix"
    and over: "256 < length tweak
           + ff1_padding_len (length tweak)
               (ceildiv (clog2 (length inp - length inp div 2) radix) 8)
           + 1 + ceildiv (clog2 (length inp - length inp div 2) radix) 8"
  shows "fpe_validate_tweak (ctx_mode ctx) (length tweak) = 0
       \<and> \<not> ff1_fits clog2 radix (length inp) (length tweak)
       \<and> FPE_encrypt clog2 ctx inp tweak = Inl OutOfBounds"
proof -
  from FPE_CTX_init_success(3,4) [OF init]
  have r: "ctx_radix ctx = radix" and m: "ctx_mode ctx = FPE_MODE_FF1" by simp_all
  from over have o: "256 < length tweak
           + ff1_padding_len (length tweak)
               (ceildiv (clog2 (length inp - length inp div 2) (ctx_radix ctx)) 8)
           + 1 + ceildiv (clog2 (length inp - length inp div 2) (ctx_radix ctx)) 8"
    by (simp only: r)
  from over have nf: "\<not> ff1_fits clog2 radix (length inp) (length tweak)"
    by (simp add: ff1_fits_def Let_def)
  from ff1_encrypt_overrun [of inp tweak clog2 ctx, OF len o] m nf show ?thesis
    by (simp add: FPE_encrypt_def fpe_validate_tweak_def)
qed

theorem FPE_encrypt_alphabet_overrun_witness:
  "list_all (\<lambda>d. d < 65536) (replicate 256 (65535 :: nat))
   \<and> \<not> ff1_fits (\<lambda>n radix. 16 * n) 65536 256 0
   \<and> FPE_encrypt (\<lambda>n radix. 16 * n)
     (snd (FPE_CTX_init toy_openssl FPE_CTX_new FPE_MODE_FF1 FPE_ALGO_AES toy_key 128 65536))
     (replicate 256 65535) [] = Inl OutOfBounds"
proof -
  have init: "FPE_CTX_init toy_openssl FPE_CTX_new FPE_MODE_FF1 FPE_ALGO_AES toy_key 128 65536
      = (0, snd (FPE_CTX_init toy_openssl FPE_CTX_new FPE_MODE_FF1 FPE_ALGO_AES toy_key 128 65536))"
    by (simp add: FPE_CTX_init_def fpe_validate_radix_def toy_openssl_def Let_def)
  have pad: "ff1_padding_len 0 256 = 15"
    by (simp add: ff1_padding_len_def c_rem_def)
  from FPE_encrypt_alphabet_overrun [OF init, of "replicate 256 65535" "[]" "\<lambda>n radix. 16 * n"]
  show ?thesis by (simp add: ceildiv_def pad list_all_iff)
qed

text \<open>
  Where \<open>FPE_encrypt\<close> returns 0 on an initialised context, in any of the three
  modes, the ciphertext it has written has the length of the input and every digit of
  it is below the radix; and it does return 0 when the cipher calls succeed, the
  length is in \<open>[2, 256]\<close>, the tweak length is valid for the mode and, for FF1,
  \<open>Q\<close> and \<open>S\<close> fit their arrays. Neither part needs the input digits to be below
  the radix.
\<close>

theorem FPE_encrypt_alphabet:
  assumes init: "FPE_CTX_init openssl ctx0 mode algo key bits radix = (0, ctx)"
  shows "(\<forall>out. FPE_encrypt clog2 ctx inp tweak = Inr out \<longrightarrow>
            length out = length inp \<and> (\<forall>d \<in> set out. d < radix))
       \<and> (cipher_ok ctx \<and> 2 \<le> length inp \<and> length inp \<le> 256
            \<and> fpe_validate_tweak mode (length tweak) = 0
            \<and> (mode = FPE_MODE_FF1 \<longrightarrow> ff1_fits clog2 radix (length inp) (length tweak))
          \<longrightarrow> (\<exists>out. FPE_encrypt clog2 ctx inp tweak = Inr out))"
proof (intro conjI allI impI)
  from FPE_CTX_init_success(1,3,4) [OF init]
  have r: "0 < ctx_radix ctx" and rr: "ctx_radix ctx = radix" and m: "ctx_mode ctx = mode"
    by simp_all
  {
    fix out
    assume run: "FPE_encrypt clog2 ctx inp tweak = Inr out"
    from FPE_encrypt_Inr [OF run] r rr
    show "length out = length inp" and "\<forall>d \<in> set out. d < radix" by simp_all
  }
  assume v: "cipher_ok ctx \<and> 2 \<le> length inp \<and> length inp \<le> 256
             \<and> fpe_validate_tweak mode (length tweak) = 0
             \<and> (mode = FPE_MODE_FF1 \<longrightarrow> ff1_fits clog2 radix (length inp) (length tweak))"
  then have ok: "cipher_ok ctx" and len: "2 \<le> length inp" "length inp \<le> 256" by simp_all
  from FPE_encrypt_total [OF ok r len] v rr m
  show "\<exists>out. FPE_encrypt clog2 ctx inp tweak = Inr out" by simp
qed

theorem FPE_encrypt_alphabet_witness:
  "\<exists>out. FPE_encrypt clog2_exact (toy_ctx FPE_MODE_FF3_1) [3, 1, 4, 1, 5] [1, 2, 3, 4, 5, 6, 7] = Inr out
       \<and> length out = 5 \<and> list_all (\<lambda>d. d < 10) out"
proof -
  have init: "FPE_CTX_init toy_openssl FPE_CTX_new FPE_MODE_FF3_1 FPE_ALGO_AES toy_key 128 10
              = (0, toy_ctx FPE_MODE_FF3_1)"
    by (simp add: toy_init)
  note a = FPE_encrypt_alphabet [OF init, of clog2_exact "[3, 1, 4, 1, 5]" "[1, 2, 3, 4, 5, 6, 7]"]
  from a obtain out where
    run: "FPE_encrypt clog2_exact (toy_ctx FPE_MODE_FF3_1) [3, 1, 4, 1, 5] [1, 2, 3, 4, 5, 6, 7]
          = Inr out"
    by (auto simp: toy_cipher_ok fpe_validate_tweak_def)
  with a show ?thesis
    by (auto simp: list_all_iff)
qed

subsection \<open>Digits are not validated\<close>

text \<open>
  Claim C3 fails on the code. \<open>FPE_encrypt\<close> and \<open>FPE_decrypt\<close> check the tweak
  length against the mode and the engines check the length; no function compares a
  digit with the radix. On an initialised context whose cipher calls succeed, every
  input of a length in \<open>[2, 256]\<close> with a tweak length valid for the mode, whatever
  its digits, is dispatched to the engine and the call returns 0 (for FF1 provided
  \<open>Q\<close> and \<open>S\<close> fit their arrays).
\<close>

theorem FPE_no_digit_validation:
  assumes init: "FPE_CTX_init openssl ctx0 mode algo key bits radix = (0, ctx)"
    and ok: "cipher_ok ctx"
    and len: "2 \<le> length inp" "length inp \<le> 256"
    and tw: "fpe_validate_tweak mode (length tweak) = 0"
    and fits: "mode = FPE_MODE_FF1 \<longrightarrow> ff1_fits clog2 radix (length inp) (length tweak)"
  shows "(\<exists>out. FPE_encrypt clog2 ctx inp tweak = Inr out)
       \<and> (\<exists>out. FPE_decrypt clog2 ctx inp tweak = Inr out)"
proof -
  from FPE_CTX_init_success(1,3,4) [OF init]
  have r: "0 < ctx_radix ctx" and rr: "ctx_radix ctx = radix" and m: "ctx_mode ctx = mode"
    by simp_all
  from FPE_encrypt_total [OF ok r len] FPE_decrypt_total [OF ok r len] tw fits rr m
  show ?thesis by simp
qed

theorem FPE_no_digit_validation_witness:
  "(\<exists>out. FPE_encrypt clog2_exact (toy_ctx FPE_MODE_FF3_1) [0, 99] [] = Inr out)
   \<and> (\<exists>out. FPE_decrypt clog2_exact (toy_ctx FPE_MODE_FF3_1) [0, 99] [] = Inr out)"
proof -
  have init: "FPE_CTX_init toy_openssl FPE_CTX_new FPE_MODE_FF3_1 FPE_ALGO_AES toy_key 128 10
              = (0, toy_ctx FPE_MODE_FF3_1)"
    by (simp add: toy_init)
  show ?thesis
    by (rule FPE_no_digit_validation [OF init])
      (simp_all add: toy_cipher_ok fpe_validate_tweak_def)
qed

text \<open>
  An instance with its output: on the FF3-1 context of radix 10 the input \<open>[0, 99]\<close>,
  whose second digit is not below the radix, is encrypted and decrypted with return
  code 0.
\<close>

theorem FPE_invalid_digit_accepted:
  "FPE_CTX_init toy_openssl FPE_CTX_new FPE_MODE_FF3_1 FPE_ALGO_AES toy_key 128 10
     = (0, toy_ctx FPE_MODE_FF3_1)
   \<and> ctx_radix (toy_ctx FPE_MODE_FF3_1) = 10 \<and> (10 :: nat) \<le> 99
   \<and> FPE_encrypt clog2_exact (toy_ctx FPE_MODE_FF3_1) [0, 99] [] = Inr [8, 9]
   \<and> FPE_decrypt clog2_exact (toy_ctx FPE_MODE_FF3_1) [0, 99] [] = Inr [0, 75]"
  by (simp add: toy_init toy_ctx_radix toy_ctx_mode FPE_encrypt_def FPE_decrypt_def
      fpe_validate_tweak_def toy_ff3_1_encrypt toy_ff3_1_decrypt)

subsection \<open>The tweak of FF3-1\<close>

text \<open>
  Claim C5. With a working cipher, a positive radix and an input length in
  \<open>[2, 256]\<close>, \<open>ff3_1_encrypt\<close> and \<open>ff3_1_decrypt\<close> (and
  \<open>fpe_validate_tweak\<close> for the mode) accept the tweak lengths 0, 7 and 8 and return
  \<open>-1\<close> for every other length; with a tweak of 8 bytes the result is the result for
  its first 7 bytes; with an empty tweak both tweak halves are zero.
\<close>

theorem ff3_1_tweak_lengths:
  assumes ok: "cipher_ok ctx" and r: "0 < ctx_radix ctx"
    and len: "2 \<le> length inp" "length inp \<le> 256"
  shows "(length tweak = 0 \<or> length tweak = 7 \<or> length tweak = 8 \<longrightarrow>
            fpe_validate_tweak FPE_MODE_FF3_1 (length tweak) = 0
          \<and> (\<exists>out. ff3_1_encrypt clog2 ctx inp tweak = Inr out)
          \<and> (\<exists>out. ff3_1_decrypt clog2 ctx inp tweak = Inr out))
       \<and> (length tweak \<noteq> 0 \<and> length tweak \<noteq> 7 \<and> length tweak \<noteq> 8 \<longrightarrow>
            fpe_validate_tweak FPE_MODE_FF3_1 (length tweak) = - 1
          \<and> ff3_1_encrypt clog2 ctx inp tweak = Inl Failure
          \<and> ff3_1_decrypt clog2 ctx inp tweak = Inl Failure)
       \<and> (length tweak = 8 \<longrightarrow>
            ff3_1_encrypt clog2 ctx inp tweak = ff3_1_encrypt clog2 ctx inp (take 7 tweak)
          \<and> ff3_1_decrypt clog2 ctx inp tweak = ff3_1_decrypt clog2 ctx inp (take 7 tweak))
       \<and> (length tweak = 0 \<longrightarrow>
            ff3_1_tweak_halves tweak = ([0, 0, 0, 0], [0, 0, 0, 0]))"
proof (intro conjI impI)
  assume "length tweak = 0 \<or> length tweak = 7 \<or> length tweak = 8"
  then show "fpe_validate_tweak FPE_MODE_FF3_1 (length tweak) = 0"
    and "\<exists>out. ff3_1_encrypt clog2 ctx inp tweak = Inr out"
    and "\<exists>out. ff3_1_decrypt clog2 ctx inp tweak = Inr out"
    using ff3_1_encrypt_total [OF ok r len] ff3_1_decrypt_total [OF ok r len]
    by (simp_all add: fpe_validate_tweak_ff3)
next
  assume "length tweak \<noteq> 0 \<and> length tweak \<noteq> 7 \<and> length tweak \<noteq> 8"
  then show "fpe_validate_tweak FPE_MODE_FF3_1 (length tweak) = - 1"
    and "ff3_1_encrypt clog2 ctx inp tweak = Inl Failure"
    and "ff3_1_decrypt clog2 ctx inp tweak = Inl Failure"
    using len
    by (simp_all add: fpe_validate_tweak_def ff3_1_encrypt_def ff3_1_decrypt_def Let_def)
next
  assume l: "length tweak = 8"
  then have h: "ff3_1_tweak_halves (take 7 tweak) = ff3_1_tweak_halves tweak"
    by (simp add: ff3_1_tweak_halves_def)
  from l show "ff3_1_encrypt clog2 ctx inp tweak = ff3_1_encrypt clog2 ctx inp (take 7 tweak)"
    by (simp add: ff3_1_encrypt_def Let_def h)
  from l show "ff3_1_decrypt clog2 ctx inp tweak = ff3_1_decrypt clog2 ctx inp (take 7 tweak)"
    by (simp add: ff3_1_decrypt_def Let_def h)
next
  assume "length tweak = 0"
  then show "ff3_1_tweak_halves tweak = ([0, 0, 0, 0], [0, 0, 0, 0])"
    by (simp add: ff3_1_tweak_halves_def replicate_numeral)
qed

theorem ff3_1_tweak_lengths_witness:
  "(\<exists>out. ff3_1_encrypt clog2_exact (toy_ctx FPE_MODE_FF3_1) [3, 1, 4] [1, 2, 3, 4, 5, 6, 7, 8] = Inr out)
   \<and> ff3_1_encrypt clog2_exact (toy_ctx FPE_MODE_FF3_1) [3, 1, 4] [1, 2, 3, 4, 5, 6, 7, 8]
       = ff3_1_encrypt clog2_exact (toy_ctx FPE_MODE_FF3_1) [3, 1, 4] [1, 2, 3, 4, 5, 6, 7]
   \<and> ff3_1_encrypt clog2_exact (toy_ctx FPE_MODE_FF3_1) [3, 1, 4] [1, 2, 3] = Inl Failure
   \<and> ff3_1_tweak_halves [] = ([0, 0, 0, 0], [0, 0, 0, 0])"
  using ff3_1_tweak_lengths [of "toy_ctx FPE_MODE_FF3_1" "[3, 1, 4]" "[1, 2, 3, 4, 5, 6, 7, 8]"
      clog2_exact]
    ff3_1_tweak_lengths [of "toy_ctx FPE_MODE_FF3_1" "[3, 1, 4]" "[1, 2, 3]" clog2_exact]
    ff3_1_tweak_lengths [of "toy_ctx FPE_MODE_FF3_1" "[3, 1, 4]" "[]" clog2_exact]
  by (auto simp: toy_cipher_ok toy_ctx_radix)




subsection \<open>Initialisation\<close>

text \<open>
  Claim C8 fails on the code: for a mode outside \<open>{FF1, FF3, FF3-1}\<close> and an
  otherwise valid radix, algorithm and key length, \<open>FPE_CTX_init\<close> stores the
  mode, leaves the cipher context as it was and returns 0. Neither branch of the
  mode test is taken and there is no final \<open>else\<close>.
\<close>

theorem FPE_CTX_init_unsupported_mode:
  assumes "mode \<noteq> FPE_MODE_FF1" "mode \<noteq> FPE_MODE_FF3" "mode \<noteq> FPE_MODE_FF3_1"
    and "2 \<le> radix" "radix \<le> 65536"
    and "algo = FPE_ALGO_AES \<and> (bits = 128 \<or> bits = 192 \<or> bits = 256)
         \<or> algo = FPE_ALGO_SM4 \<and> bits = 128"
  shows "fst (FPE_CTX_init openssl ctx mode algo key bits radix) = 0
       \<and> ctx_mode (snd (FPE_CTX_init openssl ctx mode algo key bits radix)) = mode
       \<and> cipher_ctx (snd (FPE_CTX_init openssl ctx mode algo key bits radix)) = cipher_ctx ctx"
  using assms by (auto simp: FPE_CTX_init_def fpe_validate_radix_def Let_def)

theorem FPE_CTX_init_unsupported_mode_witness:
  "fst (FPE_CTX_init toy_openssl FPE_CTX_new 3 FPE_ALGO_AES toy_key 128 10) = 0
   \<and> ctx_mode (snd (FPE_CTX_init toy_openssl FPE_CTX_new 3 FPE_ALGO_AES toy_key 128 10)) = 3
   \<and> cipher_ctx (snd (FPE_CTX_init toy_openssl FPE_CTX_new 3 FPE_ALGO_AES toy_key 128 10)) = None"
  using FPE_CTX_init_unsupported_mode [of 3 10 FPE_ALGO_AES 128 toy_openssl FPE_CTX_new toy_key]
  by (simp add: FPE_CTX_new_def)




subsection \<open>The arrays of FF1\<close>

text \<open>
  Claim C10 fails on the code: \<open>fpe_validate_tweak\<close> accepts every tweak length for
  FF1, but for a tweak of 256 bytes or more (and an input length in \<open>[2, 256]\<close>) the
  assembly of \<open>Q\<close> in round 0 writes past the end of \<open>Q[256]\<close>.
\<close>

theorem ff1_long_tweak_overrun:
  assumes "2 \<le> length inp" "length inp \<le> 256" "256 \<le> length tweak"
  shows "fpe_validate_tweak FPE_MODE_FF1 (length tweak) = 0
       \<and> ff1_encrypt clog2 ctx inp tweak = Inl OutOfBounds
       \<and> FPE_encrypt clog2 (ctx\<lparr>ctx_mode := FPE_MODE_FF1\<rparr>) inp tweak = Inl OutOfBounds"
proof -
  have e: "ff1_encrypt clog2 c inp tweak = Inl OutOfBounds" for c
    using assms(3) by (intro ff1_encrypt_overrun [OF assms(1,2)]) simp
  show ?thesis
    by (simp add: e FPE_encrypt_def fpe_validate_tweak_def)
qed

theorem ff1_long_tweak_overrun_witness:
  "fpe_validate_tweak FPE_MODE_FF1 (length (replicate 300 (0 :: byte))) = 0
   \<and> ff1_encrypt clog2_exact (toy_ctx FPE_MODE_FF1) [0, 1] (replicate 300 0) = Inl OutOfBounds
   \<and> FPE_encrypt clog2_exact (toy_ctx FPE_MODE_FF1) [0, 1] (replicate 300 0) = Inl OutOfBounds"
proof -
  have "(toy_ctx FPE_MODE_FF1)\<lparr>ctx_mode := FPE_MODE_FF1\<rparr> = toy_ctx FPE_MODE_FF1"
    by (simp add: toy_ctx_def FPE_CTX_init_def fpe_validate_radix_def toy_openssl_def Let_def)
  then show ?thesis
    using ff1_long_tweak_overrun [of "[0, 1]" "replicate 300 0" clog2_exact "toy_ctx FPE_MODE_FF1"]
    by simp
qed

text \<open>
  Claim C1 fails on the code, for the same arrays: on an FF1 context of radix 65536
  (where \<open>ceil(128 * log2(65536))\<close> is 2048, so \<open>b = 256\<close>) an input of 256 digits
  with the empty tweak makes \<open>Q\<close> 272 bytes long; \<open>FPE_encrypt\<close> and
  \<open>FPE_decrypt\<close> write past the end of \<open>Q[256]\<close> in their first round, and no
  plaintext comes back.
\<close>

theorem ff1_roundtrip_overrun:
  assumes init: "FPE_CTX_init openssl ctx0 FPE_MODE_FF1 algo key bits 65536 = (0, ctx)"
    and log: "clog2 128 65536 = 2048"
    and len: "length inp = 256"
  shows "fpe_validate_tweak FPE_MODE_FF1 0 = 0
       \<and> FPE_encrypt clog2 ctx inp [] = Inl OutOfBounds
       \<and> FPE_decrypt clog2 ctx inp [] = Inl OutOfBounds"
proof -
  from FPE_CTX_init_success(3,4) [OF init]
  have r: "ctx_radix ctx = 65536" and m: "ctx_mode ctx = FPE_MODE_FF1" by simp_all
  have b: "ceildiv (clog2 (length inp - length inp div 2) (ctx_radix ctx)) 8 = 256"
    by (simp add: len r log ceildiv_def)
  have pad: "ff1_padding_len 0 256 = 15"
    by (simp add: ff1_padding_len_def c_rem_def)
  have over: "256 < length ([] :: byte list)
           + ff1_padding_len (length ([] :: byte list))
               (ceildiv (clog2 (length inp - length inp div 2) (ctx_radix ctx)) 8)
           + 1 + ceildiv (clog2 (length inp - length inp div 2) (ctx_radix ctx)) 8"
    by (simp add: b pad)
  have l: "2 \<le> length inp" "length inp \<le> 256" using len by simp_all
  from ff1_encrypt_overrun [of inp "[]" clog2 ctx, OF l over]
    ff1_decrypt_overrun [of inp "[]" clog2 ctx, OF l over] m
  show ?thesis by (simp add: FPE_encrypt_def FPE_decrypt_def fpe_validate_tweak_def)
qed

theorem ff1_roundtrip_overrun_witness:
  "FPE_encrypt (\<lambda>n radix. 16 * n)
     (snd (FPE_CTX_init toy_openssl FPE_CTX_new FPE_MODE_FF1 FPE_ALGO_AES toy_key 128 65536))
     (replicate 256 0) [] = Inl OutOfBounds
   \<and> FPE_decrypt (\<lambda>n radix. 16 * n)
     (snd (FPE_CTX_init toy_openssl FPE_CTX_new FPE_MODE_FF1 FPE_ALGO_AES toy_key 128 65536))
     (replicate 256 0) [] = Inl OutOfBounds"
proof -
  have init: "FPE_CTX_init toy_openssl FPE_CTX_new FPE_MODE_FF1 FPE_ALGO_AES toy_key 128 65536
      = (0, snd (FPE_CTX_init toy_openssl FPE_CTX_new FPE_MODE_FF1 FPE_ALGO_AES toy_key 128 65536))"
    by (simp add: FPE_CTX_init_def fpe_validate_radix_def toy_openssl_def Let_def)
  from ff1_roundtrip_overrun [OF init, of "\<lambda>n radix. 16 * n" "replicate 256 0"]
  show ?thesis by simp
qed

text \<open>
  Where \<open>FPE_encrypt\<close> does return success, in any mode, \<open>FPE_decrypt\<close> under
  the same context and tweak returns the plaintext, provided the plaintext digits are
  below the radix.
\<close>

theorem FPE_roundtrip:
  assumes init: "FPE_CTX_init openssl ctx0 mode algo key bits radix = (0, ctx)"
    and digits: "\<forall>d \<in> set inp. d < radix"
    and run: "FPE_encrypt clog2 ctx inp tweak = Inr out"
  shows "FPE_decrypt clog2 ctx out tweak = Inr inp"
proof -
  from FPE_CTX_init_success(1,3) [OF init] have "0 < ctx_radix ctx" "ctx_radix ctx = radix"
    by simp_all
  with FPE_roundtrip_ctx [OF run] digits show ?thesis by simp
qed

end
